theory Spec2Isabelle
  imports Main "HOL-Library.AList"
begin

section \<open>The HTTP client: data model\<close>

text \<open>
  The model follows the class \<open>ApiInstance\<close> and the hooks of \<open>createApi\<close>.
  JavaScript numbers that hold counts and millisecond times are \<open>int\<close>; strings are
  \<open>string\<close>; an optional field is an \<open>option\<close>; a thrown value or a rejected promise
  is the left summand of a sum type.  Field names are the source's, with a suffix where
  two records of the source share a name (\<open>data\<close>, \<open>cache\<close>, \<open>headers\<close>, \<open>baseURL\<close>).
\<close>

subsection \<open>Thrown values\<close>

text \<open>
  What the client can observe of a thrown value is whether it is an instance of \<open>Error\<close>
  and what its \<open>name\<close> is.  \<open>JsUndefined\<close> is the initial \<open>lastErr\<close> of the retry loop;
  \<open>JsError name message\<close> is an \<open>Error\<close> (\<open>TypeError\<close>, \<open>DOMException\<close>, \<dots>);
  \<open>ApiMeta code message status\<close> is the class \<open>ApiMeta extends Error\<close>, whose name stays
  \<open>Error\<close>; \<open>JsValue v\<close> is any other thrown value, such as a parsed response body.
\<close>

datatype thrown =
    JsUndefined
  | JsError string string
  | ApiMeta int string string
  | JsValue string

fun isAbortError :: "thrown \<Rightarrow> bool" where
  "isAbortError (JsError name message) = (name = ''AbortError'')"
| "isAbortError _ = False"

subsection \<open>Configuration, responses and interceptors\<close>

datatype http_method = GET | POST | PUT | PATCH | DELETE

datatype TPrimitive = PString string | PNumber int | PBoolean bool

datatype param_value = Single TPrimitive | Many "TPrimitive list"

type_synonym params_t = "(string \<times> param_value) list"

text \<open>A request body: a \<open>FormData\<close> object or any other \<open>BodyInit\<close>, given by its text.\<close>

datatype BodyInit = FormData string | OtherBody string

record cache_config =
  enabled :: "bool option"
  revalidate :: "int option"

record TApiConfig =
  baseURL_cfg :: "string option"
  url :: string
  http_method :: "http_method option"
  body :: "BodyInit option"
  mode :: "string option"
  retry :: "int option"
  headers :: "(string \<times> string) list option"
  params :: "params_t option"
  cache_cfg :: "cache_config option"
  signal :: "nat option"
  onUpload :: "nat option"
  onDownload :: "nat option"

record 'a TCacheEntry =
  data :: 'a
  timestamp :: int
  ttl :: "int option"

record 'a TApiResponse =
  data_res :: 'a
  cacheKey :: "string option"
  fromCache :: bool

text \<open>
  A platform \<open>Response\<close>: \<open>ok\<close>, \<open>statusText\<close>, the \<open>content-type\<close> header, and what
  \<open>json()\<close>, \<open>text()\<close> and \<open>blob()\<close> resolve or reject with.  \<open>httpError\<close> is the value
  that the block \<open>if (!res.ok) { ... }\<close> of \<open>fetchWithRetry\<close> throws for this response:
  every path of that block ends in a \<open>throw\<close> (the \<open>ApiMeta\<close> built from the parsed body,
  the parsed body itself, or the exception of \<open>json()\<close> or of a property access).
\<close>

record 'a Response =
  ok :: bool
  statusText :: string
  content_type :: "string option"
  body_json :: "thrown + 'a"
  body_text :: "thrown + string"
  body_blob :: "thrown + 'a"
  httpError :: thrown

record 'a IApiInterceptor =
  on_request :: "(TApiConfig \<Rightarrow> thrown + TApiConfig) option"
  on_response :: "('a Response \<Rightarrow> thrown + 'a Response) option"
  on_error :: "(thrown \<Rightarrow> thrown + 'a TApiResponse) option"

record TApiInstanceOptions =
  baseURL_opt :: "string option"
  headers_opt :: "(string \<times> string) list option"
  source_opt :: "string option"
  maxCacheSize_opt :: "int option"

record 'a ApiInstance =
  baseURL :: string
  defaultHeaders :: "(string \<times> string) list"
  interceptors :: "'a IApiInterceptor"
  source :: string
  cache :: "(string \<times> 'a TCacheEntry) list"
  maxCacheSize :: int
  cacheAccessOrder :: "string list"

text \<open>
  The constructor.  \<open>options.x || d\<close> takes \<open>d\<close> when \<open>x\<close> is missing or falsy: the
  empty string for a string, \<open>0\<close> for a number.
\<close>

definition new_ApiInstance :: "TApiInstanceOptions \<Rightarrow> 'a ApiInstance" where
  "new_ApiInstance options =
     \<lparr> baseURL = (case baseURL_opt options of Some b \<Rightarrow> b | None \<Rightarrow> ''''),
       defaultHeaders = (case headers_opt options of Some h \<Rightarrow> h | None \<Rightarrow> []),
       interceptors = \<lparr> on_request = None, on_response = None, on_error = None \<rparr>,
       source = ''komcards-'' @
         (case source_opt options of
            Some s \<Rightarrow> if s = '''' then ''default'' else s
          | None \<Rightarrow> ''default''),
       cache = [],
       maxCacheSize =
         (case maxCacheSize_opt options of
            Some n \<Rightarrow> if n = 0 then 100 else n
          | None \<Rightarrow> 100),
       cacheAccessOrder = [] \<rparr>"

definition setInterceptors :: "'a IApiInterceptor \<Rightarrow> 'a ApiInstance \<Rightarrow> 'a ApiInstance" where
  "setInterceptors i st = st\<lparr>interceptors := i\<rparr>"

section \<open>The cache: a bounded map with an access order\<close>

subsection \<open>The platform's \<open>Map\<close> and array operations\<close>

text \<open>
  The \<open>Map\<close> is an association list in insertion order: \<open>set\<close> overwrites in place or
  appends, as \<open>AList.update\<close> does, and \<open>size\<close> is the length.
\<close>

definition Map_get :: "('k \<times> 'v) list \<Rightarrow> 'k \<Rightarrow> 'v option" where
  "Map_get m k = map_of m k"

definition Map_has :: "('k \<times> 'v) list \<Rightarrow> 'k \<Rightarrow> bool" where
  "Map_has m k = (map_of m k \<noteq> None)"

definition Map_set :: "'k \<Rightarrow> 'v \<Rightarrow> ('k \<times> 'v) list \<Rightarrow> ('k \<times> 'v) list" where
  "Map_set k v m = AList.update k v m"

definition Map_delete :: "'k \<Rightarrow> ('k \<times> 'v) list \<Rightarrow> ('k \<times> 'v) list" where
  "Map_delete k m = AList.delete k m"

definition Map_size :: "('k \<times> 'v) list \<Rightarrow> int" where
  "Map_size m = int (length m)"

text \<open>\<open>indexOf\<close> is the first position of the key, or \<open>-1\<close>.\<close>

fun indexOf :: "'k list \<Rightarrow> 'k \<Rightarrow> int" where
  "indexOf [] k = -1"
| "indexOf (x # xs) k =
     (if x = k then 0 else (let i = indexOf xs k in if i > -1 then i + 1 else -1))"

text \<open>\<open>splice(index, 1)\<close> for an index within the array.\<close>

definition splice1 :: "'k list \<Rightarrow> nat \<Rightarrow> 'k list" where
  "splice1 xs i = take i xs @ drop (Suc i) xs"

text \<open>\<open>shift()\<close>: the first element, or \<open>undefined\<close> on the empty array.\<close>

fun shift :: "'k list \<Rightarrow> 'k option \<times> 'k list" where
  "shift [] = (None, [])"
| "shift (x # xs) = (Some x, xs)"

text \<open>
  The three statements \<open>index = order.indexOf(key); if (index > -1) order.splice(index, 1)\<close>
  that \<open>getCacheEntry\<close>, \<open>setCacheEntry\<close> and \<open>removeCacheEntry\<close> each contain.
\<close>

definition spliceOut :: "'k \<Rightarrow> 'k list \<Rightarrow> 'k list" where
  "spliceOut key order =
     (let index = indexOf order key
      in if index > -1 then splice1 order (nat index) else order)"

subsection \<open>The cache methods\<close>

definition getCacheEntry ::
  "string \<Rightarrow> 'a ApiInstance \<Rightarrow> 'a TCacheEntry option \<times> 'a ApiInstance" where
  "getCacheEntry key st =
     (case Map_get (cache st) key of
        Some entry \<Rightarrow>
          (Some entry, st\<lparr>cacheAccessOrder := spliceOut key (cacheAccessOrder st) @ [key]\<rparr>)
      | None \<Rightarrow> (None, st))"

text \<open>
  The body of the first \<open>if\<close> of \<open>setCacheEntry\<close>:
  \<open>oldestKey = cacheAccessOrder.shift(); if (oldestKey) cache.delete(oldestKey)\<close>.  The
  inner test is a truthiness test: it fails for \<open>undefined\<close> and for the empty string.
  The \<open>shift()\<close> before it has removed the key from the order either way.
\<close>

definition evictOldest :: "'a ApiInstance \<Rightarrow> 'a ApiInstance" where
  "evictOldest st =
     (case shift (cacheAccessOrder st) of
        (oldestKey, rest) \<Rightarrow>
          (let st' = st\<lparr>cacheAccessOrder := rest\<rparr>
           in case oldestKey of
                Some k \<Rightarrow> if k \<noteq> '''' then st'\<lparr>cache := Map_delete k (cache st')\<rparr> else st'
              | None \<Rightarrow> st'))"

definition setCacheEntry :: "string \<Rightarrow> 'a TCacheEntry \<Rightarrow> 'a ApiInstance \<Rightarrow> 'a ApiInstance" where
  "setCacheEntry key entry st =
     (let st1 = (if Map_size (cache st) \<ge> maxCacheSize st \<and> \<not> Map_has (cache st) key
                 then evictOldest st else st);
          st2 = st1\<lparr>cache := Map_set key entry (cache st1)\<rparr>
      in st2\<lparr>cacheAccessOrder := spliceOut key (cacheAccessOrder st2) @ [key]\<rparr>)"

definition removeCacheEntry :: "string \<Rightarrow> 'a ApiInstance \<Rightarrow> 'a ApiInstance" where
  "removeCacheEntry key st =
     st\<lparr>cache := Map_delete key (cache st),
        cacheAccessOrder := spliceOut key (cacheAccessOrder st)\<rparr>"

text \<open>The public cache methods.  \<open>now\<close> is the value of \<open>Date.now()\<close> at the call.\<close>

definition getCache :: "string \<Rightarrow> 'a ApiInstance \<Rightarrow> 'a option \<times> 'a ApiInstance" where
  "getCache key st =
     (case getCacheEntry key st of (entry, st') \<Rightarrow> (map_option data entry, st'))"

definition setCache :: "string \<Rightarrow> 'a \<Rightarrow> int option \<Rightarrow> int \<Rightarrow> 'a ApiInstance \<Rightarrow> 'a ApiInstance" where
  "setCache key d t now st = setCacheEntry key \<lparr>data = d, timestamp = now, ttl = t\<rparr> st"

definition removeCache :: "string \<Rightarrow> 'a ApiInstance \<Rightarrow> 'a ApiInstance" where
  "removeCache key st = removeCacheEntry key st"

definition clearCache :: "'a ApiInstance \<Rightarrow> 'a ApiInstance" where
  "clearCache st = st\<lparr>cache := [], cacheAccessOrder := []\<rparr>"

section \<open>The request pipeline\<close>

subsection \<open>The environment of a request\<close>

text \<open>
  What a call of \<open>request\<close> takes from the platform, as parameters of the model:
  \<open>JSON.stringify\<close> on the key object \<open>{url, params}\<close> and on a request body,
  \<open>encodeURIComponent\<close> (which first converts a primitive to a string), the outcome of
  the \<open>n\<close>-th call of \<open>fetch\<close> (or of \<open>fetchWithXHR\<close>) that the retry loop makes, the two
  readings of \<open>Date.now()\<close> (at the expiry test and when the response is stored), and the
  type assertion \<open>as T\<close> applied to a text body.
\<close>

record 'a env =
  JSON_stringify :: "string \<Rightarrow> params_t option \<Rightarrow> string"
  JSON_stringify_body :: "string \<Rightarrow> string"
  encodeURIComponent :: "TPrimitive \<Rightarrow> string"
  fetch_result :: "nat \<Rightarrow> thrown + 'a Response"
  now_lookup :: int
  now_store :: int
  text_as_T :: "string \<Rightarrow> 'a"

subsection \<open>The cache key\<close>

text \<open>
  \<open>hash\<close>.  \<open>hash << 5\<close> is the signed 32-bit value of \<open>hash * 32\<close>; the subtraction and
  the addition of the character code are exact; \<open>hash & hash\<close> truncates the sum to a
  signed 32-bit integer again.  \<open>toString(36)\<close> writes the result in base 36, with a
  minus sign when it is negative.
\<close>

definition toInt32 :: "int \<Rightarrow> int" where
  "toInt32 x = (x + 2147483648) mod 4294967296 - 2147483648"

definition hash_step :: "int \<Rightarrow> char \<Rightarrow> int" where
  "hash_step h c = toInt32 (toInt32 (h * 32) - h + int (of_char c))"

fun digits36 :: "nat \<Rightarrow> string" where
  "digits36 n =
     (if n < 36 then [''0123456789abcdefghijklmnopqrstuvwxyz'' ! n]
      else digits36 (n div 36) @ [''0123456789abcdefghijklmnopqrstuvwxyz'' ! (n mod 36)])"

declare digits36.simps [simp del]

definition toString36 :: "int \<Rightarrow> string" where
  "toString36 i = (if i < 0 then CHR ''-'' # digits36 (nat (- i)) else digits36 (nat i))"

definition hash :: "string \<Rightarrow> string" where
  "hash str = toString36 (foldl hash_step 0 str)"

definition buildcacheKey ::
  "(string \<Rightarrow> params_t option \<Rightarrow> string) \<Rightarrow> 'a ApiInstance \<Rightarrow> TApiConfig \<Rightarrow> string" where
  "buildcacheKey stringify st config =
     (let keyString = stringify (url config) (params config)
      in if length keyString > 200 then source st @ '':'' @ hash keyString
         else source st @ '':'' @ keyString)"

subsection \<open>\<open>buildURL\<close>\<close>

fun join :: "string \<Rightarrow> string list \<Rightarrow> string" where
  "join sep [] = []"
| "join sep [x] = x"
| "join sep (x # y # ys) = x @ sep @ join sep (y # ys)"

fun str_includes :: "string \<Rightarrow> string \<Rightarrow> bool" where
  "str_includes [] sub = (sub = [])"
| "str_includes (x # xs) sub = (take (length sub) (x # xs) = sub \<or> str_includes xs sub)"

definition buildURL :: "(TPrimitive \<Rightarrow> string) \<Rightarrow> string \<Rightarrow> params_t option \<Rightarrow> string" where
  "buildURL enc u ps =
     (case ps of
        None \<Rightarrow> u
      | Some entries \<Rightarrow>
          (let queryString =
                 join ''&''
                   (map (\<lambda>(key, value).
                           case value of
                             Many vs \<Rightarrow> enc (PString key) @ ''='' @ join '','' (map enc vs)
                           | Single v \<Rightarrow> enc (PString key) @ ''='' @ enc v)
                      entries)
           in if str_includes u ''?'' then u @ ''&'' @ queryString else u @ ''?'' @ queryString))"

subsection \<open>Events\<close>

text \<open>
  The effects of a request that the claims speak about are recorded as a list of events,
  in the order in which the code performs them: a call of an interceptor, a call of the
  transport (\<open>fetch\<close>, or \<open>fetchWithXHR\<close> when a progress callback is given) with its URL
  and init object, and a timer \<open>setTimeout(r, delay)\<close> that the loop awaits.
\<close>

datatype transport = ViaFetch | ViaXHR

record RequestInit =
  init_method :: http_method
  init_headers :: "(string \<times> string) list"
  init_body :: "BodyInit option"
  init_signal :: "nat option"

datatype event =
    CallRequestInterceptor TApiConfig
  | Send transport string RequestInit
  | SetTimeout int
  | CallResponseInterceptor
  | CallErrorInterceptor thrown

subsection \<open>\<open>fetchWithRetry\<close>\<close>

text \<open>
  One pass through the \<open>try\<close> block: the transport rejects, or resolves with a response;
  a response that is not \<open>ok\<close> is turned into a thrown value.
\<close>

definition attempt_outcome :: "thrown + 'a Response \<Rightarrow> thrown + 'a Response" where
  "attempt_outcome r =
     (case r of
        Inl err \<Rightarrow> Inl err
      | Inr res \<Rightarrow> if \<not> ok res then Inl (httpError res) else Inr res)"

text \<open>
  The \<open>while\<close> loop, from the state \<open>(attempt, lastErr)\<close>.  It returns the response or
  the thrown value, and the events from this state on.  \<open>sent\<close> is the transport call,
  the same at every attempt.
\<close>

function fetchWithRetry_loop ::
  "(nat \<Rightarrow> thrown + 'a Response) \<Rightarrow> event \<Rightarrow> int \<Rightarrow> nat \<Rightarrow> thrown
     \<Rightarrow> (thrown + 'a Response) \<times> event list" where
  "fetchWithRetry_loop fetch sent retry_n attempt lastErr =
     (if int attempt \<le> retry_n then
        (case attempt_outcome (fetch attempt) of
           Inr res \<Rightarrow> (Inr res, [sent])
         | Inl err \<Rightarrow>
             if isAbortError err then (Inl err, [sent])
             else if int attempt = retry_n then (Inl err, [sent])
             else (case fetchWithRetry_loop fetch sent retry_n (attempt + 1) err of
                     (r, evs) \<Rightarrow> (r, sent # SetTimeout (2 ^ attempt * 200) # evs)))
      else (Inl lastErr, []))"
  by pat_completeness auto
termination
  by (relation "measure (\<lambda>(fetch, sent, retry_n, attempt, lastErr). nat (retry_n + 1 - int attempt))")
    auto

declare fetchWithRetry_loop.simps [simp del]

text \<open>
  The call inside the \<open>try\<close> block: \<open>fetchWithXHR(input, {...init, signal}, onUpload, onDownload)\<close>
  when a progress callback is given, \<open>fetch(input, {...init, signal})\<close> otherwise.
\<close>

definition transport_call ::
  "string \<Rightarrow> RequestInit \<Rightarrow> nat option \<Rightarrow> nat option \<Rightarrow> nat option \<Rightarrow> event" where
  "transport_call input init sig onUp onDown =
     Send (if onUp \<noteq> None \<or> onDown \<noteq> None then ViaXHR else ViaFetch) input
       (init\<lparr>init_signal := sig\<rparr>)"

definition fetchWithRetry ::
  "(nat \<Rightarrow> thrown + 'a Response) \<Rightarrow> string \<Rightarrow> RequestInit \<Rightarrow> int \<Rightarrow> nat option
     \<Rightarrow> nat option \<Rightarrow> nat option \<Rightarrow> (thrown + 'a Response) \<times> event list" where
  "fetchWithRetry fetch input init retry_n sig onUp onDown =
     fetchWithRetry_loop fetch (transport_call input init sig onUp onDown) retry_n 0 JsUndefined"

text \<open>
  Vocabulary for the claims about the loop.  An attempt is \<open>retryable\<close> when it fails
  with a value that is not an abort error.  \<open>backoff_schedule sent a n\<close> is the event
  list of \<open>n\<close> attempts of which the first has index \<open>a\<close>: each attempt but the last is
  followed by a timer of \<open>2 ^ attempt * 200\<close> milliseconds.
\<close>

definition retryable :: "thrown + 'a Response \<Rightarrow> bool" where
  "retryable r =
     (case attempt_outcome r of Inr res \<Rightarrow> False | Inl err \<Rightarrow> \<not> isAbortError err)"

fun backoff_schedule :: "event \<Rightarrow> nat \<Rightarrow> nat \<Rightarrow> event list" where
  "backoff_schedule sent a 0 = []"
| "backoff_schedule sent a (Suc 0) = [sent]"
| "backoff_schedule sent a (Suc (Suc n)) =
     sent # SetTimeout (2 ^ a * 200) # backoff_schedule sent (Suc a) (Suc n)"

fun isSend :: "event \<Rightarrow> bool" where
  "isSend (Send t u i) = True"
| "isSend _ = False"

subsection \<open>Interceptors\<close>

definition handleInterceptors ::
  "'a ApiInstance \<Rightarrow> TApiConfig \<Rightarrow> (thrown + TApiConfig) \<times> event list" where
  "handleInterceptors st config =
     (case on_request (interceptors st) of
        Some f \<Rightarrow> (f config, [CallRequestInterceptor config])
      | None \<Rightarrow> (Inr config, []))"

definition handleResponse ::
  "'a ApiInstance \<Rightarrow> 'a Response \<Rightarrow> (thrown + 'a Response) \<times> event list" where
  "handleResponse st response =
     (case on_response (interceptors st) of
        Some f \<Rightarrow> (f response, [CallResponseInterceptor])
      | None \<Rightarrow> (Inr response, []))"

definition handleError ::
  "'a ApiInstance \<Rightarrow> thrown \<Rightarrow> (thrown + 'a TApiResponse) \<times> event list" where
  "handleError st error =
     (case on_error (interceptors st) of
        Some f \<Rightarrow> (f error, [CallErrorInterceptor error])
      | None \<Rightarrow> (Inl error, []))"

subsection \<open>\<open>request\<close>\<close>

text \<open>
  The condition \<open>finalConfig.cache && finalConfig.cache.enabled && finalConfig.method === "GET"\<close>,
  which guards both the lookup and the store.
\<close>

definition cacheable :: "TApiConfig \<Rightarrow> bool" where
  "cacheable c =
     (case cache_cfg c of
        None \<Rightarrow> False
      | Some cc \<Rightarrow> enabled cc = Some True \<and> http_method c = Some GET)"

text \<open>
  \<open>expired = cached.ttl && Date.now() - cached.timestamp > cached.ttl\<close>: the first conjunct
  is a truthiness test, false for a missing ttl and for the ttl \<open>0\<close>.
\<close>

definition expired :: "'a TCacheEntry \<Rightarrow> int \<Rightarrow> bool" where
  "expired cached now =
     (case ttl cached of
        None \<Rightarrow> False
      | Some t \<Rightarrow> t \<noteq> 0 \<and> now - timestamp cached > t)"


text \<open>Object spread \<open>{...base, ...more}\<close>: later entries overwrite earlier ones.\<close>

definition spread :: "(string \<times> string) list \<Rightarrow> (string \<times> string) list \<Rightarrow> (string \<times> string) list" where
  "spread base extra = foldl (\<lambda>acc (k, v). AList.update k v acc) base extra"

definition isFormData :: "TApiConfig \<Rightarrow> bool" where
  "isFormData c = (case body c of Some (FormData f) \<Rightarrow> True | _ \<Rightarrow> False)"

text \<open>The init object that \<open>request\<close> hands to \<open>fetchWithRetry\<close>.\<close>

definition requestInit :: "'a env \<Rightarrow> 'a ApiInstance \<Rightarrow> TApiConfig \<Rightarrow> RequestInit" where
  "requestInit e st finalConfig =
     \<lparr> init_method = (case http_method finalConfig of Some m \<Rightarrow> m | None \<Rightarrow> GET),
       init_headers =
         spread
           (spread (if isFormData finalConfig then [] else [(''Content-Type'', ''application/json'')])
              (defaultHeaders st))
           (case headers finalConfig of Some h \<Rightarrow> h | None \<Rightarrow> []),
       init_body =
         (case body finalConfig of
            Some (FormData f) \<Rightarrow> Some (FormData f)
          | Some (OtherBody b) \<Rightarrow>
              if b \<noteq> [] then Some (OtherBody (JSON_stringify_body e b)) else None
          | None \<Rightarrow> None),
       init_signal = None \<rparr>"

text \<open>
  From the final response to the data.  For a response that is not \<open>ok\<close> the inner
  \<open>try\<close> block always throws and its \<open>catch\<close> discards what was thrown, reads the text
  and throws \<open>new Error(errorText || statusText)\<close>.  Otherwise the body is read according
  to the \<open>content-type\<close> header.
\<close>

definition readBody :: "'a env \<Rightarrow> 'a Response \<Rightarrow> thrown + 'a" where
  "readBody e finalResponse =
     (if \<not> ok finalResponse then
        (case body_text finalResponse of
           Inl err \<Rightarrow> Inl err
         | Inr errorText \<Rightarrow>
             Inl (JsError ''Error''
                    (if errorText \<noteq> [] then errorText else statusText finalResponse)))
      else
        (let contentType = (case content_type finalResponse of Some c \<Rightarrow> c | None \<Rightarrow> [])
         in if str_includes contentType ''application/json'' then body_json finalResponse
            else if str_includes contentType ''text/''
            then (case body_text finalResponse of
                    Inl err \<Rightarrow> Inl err
                  | Inr t \<Rightarrow> Inr (text_as_T e t))
            else body_blob finalResponse))"

text \<open>
  The part of the \<open>try\<close> block after the cache lookup.  First the URL is built and
  \<open>fetchWithRetry\<close> is called; then the response goes through the response
  interceptor, the body is read, and the data is stored into the cache.
\<close>

definition sendRequest ::
  "'a env \<Rightarrow> TApiConfig \<Rightarrow> 'a ApiInstance \<Rightarrow> (thrown + 'a Response) \<times> event list" where
  "sendRequest e finalConfig st =
     (let u = (if baseURL st \<noteq> [] then baseURL st @ url finalConfig else url finalConfig);
          finalURL = buildURL (encodeURIComponent e) u (params finalConfig)
      in fetchWithRetry (fetch_result e) finalURL (requestInit e st finalConfig)
           (case retry finalConfig of Some r \<Rightarrow> r | None \<Rightarrow> 0)
           (signal finalConfig) (onUpload finalConfig) (onDownload finalConfig))"

definition request_network ::
  "'a env \<Rightarrow> TApiConfig \<Rightarrow> string \<Rightarrow> 'a ApiInstance
     \<Rightarrow> (thrown + 'a TApiResponse) \<times> 'a ApiInstance \<times> event list" where
  "request_network e finalConfig key st =
     (case sendRequest e finalConfig st of
        (Inl err, evs) \<Rightarrow> (Inl err, st, evs)
      | (Inr response, evs) \<Rightarrow>
          (case handleResponse st response of
             (Inl err, evs') \<Rightarrow> (Inl err, st, evs @ evs')
           | (Inr finalResponse, evs') \<Rightarrow>
               (case readBody e finalResponse of
                  Inl err \<Rightarrow> (Inl err, st, evs @ evs')
                | Inr d \<Rightarrow>
                    (Inr \<lparr>data_res = d, cacheKey = Some key, fromCache = False\<rparr>,
                     (if cacheable finalConfig
                      then setCacheEntry key
                             \<lparr>data = d, timestamp = now_store e,
                              ttl = (case cache_cfg finalConfig of
                                       Some cc \<Rightarrow> revalidate cc
                                     | None \<Rightarrow> None)\<rparr> st
                      else st),
                     evs @ evs'))))"

text \<open>The \<open>try\<close> block of \<open>request\<close>.\<close>

definition request_try ::
  "'a env \<Rightarrow> TApiConfig \<Rightarrow> 'a ApiInstance
     \<Rightarrow> (thrown + 'a TApiResponse) \<times> 'a ApiInstance \<times> event list" where
  "request_try e config st =
     (case handleInterceptors st config of
        (Inl err, evs) \<Rightarrow> (Inl err, st, evs)
      | (Inr finalConfig, evs) \<Rightarrow>
          (let key = buildcacheKey (JSON_stringify e) st finalConfig
           in if cacheable finalConfig then
                (case getCacheEntry key st of
                   (Some cached, st1) \<Rightarrow>
                     if \<not> expired cached (now_lookup e)
                     then (Inr \<lparr>data_res = data cached, cacheKey = Some key, fromCache = True\<rparr>,
                           st1, evs)
                     else (case request_network e finalConfig key (removeCacheEntry key st1) of
                             (r, st2, evs') \<Rightarrow> (r, st2, evs @ evs'))
                 | (None, st1) \<Rightarrow>
                     (case request_network e finalConfig key st1 of
                        (r, st2, evs') \<Rightarrow> (r, st2, evs @ evs')))
              else (case request_network e finalConfig key st of
                      (r, st2, evs') \<Rightarrow> (r, st2, evs @ evs'))))"

text \<open>\<open>request\<close>: the \<open>try\<close> block, and \<open>catch (error) { return this.handleError(error) }\<close>.\<close>

definition request ::
  "'a env \<Rightarrow> TApiConfig \<Rightarrow> 'a ApiInstance
     \<Rightarrow> (thrown + 'a TApiResponse) \<times> 'a ApiInstance \<times> event list" where
  "request e config st =
     (case request_try e config st of
        (Inl err, st', evs) \<Rightarrow>
          (case handleError st' err of (r, evs') \<Rightarrow> (r, st', evs @ evs'))
      | (Inr res, st', evs) \<Rightarrow> (Inr res, st', evs))"

text \<open>\<open>get(url, config)\<close> is \<open>request({...config, url, method: "GET"})\<close>.\<close>

definition get ::
  "'a env \<Rightarrow> string \<Rightarrow> TApiConfig \<Rightarrow> 'a ApiInstance
     \<Rightarrow> (thrown + 'a TApiResponse) \<times> 'a ApiInstance \<times> event list" where
  "get e u config st = request e (config\<lparr>url := u, http_method := Some GET\<rparr>) st"

section \<open>The hooks\<close>

subsection \<open>\<open>useMutation\<close>: one call of \<open>mutate\<close>\<close>

text \<open>
  \<open>mutate\<close> is an async function with one \<open>await\<close>.  The model has a function for the
  part that runs when \<open>mutate\<close> is called, up to the \<open>await\<close> or to an earlier \<open>return\<close>
  or \<open>throw\<close> (\<open>mutate_start\<close>), and one for the part that runs when the awaited promise
  has settled (\<open>mutate_settle\<close>); the \<open>finally\<close> block belongs to whichever part ends the
  call.  A promise is a handle, the index of its request in \<open>started\<close>, the list of the
  configs handed to \<open>instance.get\<close> or \<open>instance.request\<close>.  \<open>module_state\<close> holds what is
  shared by all hooks: the module-level map \<open>pendingRequests\<close>, the requests started, and
  the abort controllers created and aborted.  \<open>mutation_state\<close> is the state of one hook.
  The argument of \<open>mutate\<close> is given by what the code reads of it: its value as query
  parameters, its value as a body, and its truthiness.  \<open>stringify\<close> is
  \<open>JSON.stringify({url, method, request})\<close>, which may throw.
\<close>

datatype progress_kind = Upload | Download

record TMutationOptions =
  mo_cache :: "cache_config option"
  mo_headers :: "(string \<times> string) list option"
  mo_method :: "http_method option"
  mo_signal :: "nat option"
  mo_progress :: "progress_kind option"
  mo_queryMutation :: "bool option"

record TRequest =
  as_params :: params_t
  as_body :: BodyInit
  truthy :: bool

record mutation_state =
  abortControllerRef :: "nat option"
  isLoading :: bool
  cacheKey_state :: "string option"
  progress :: "(int \<times> int \<times> int) option"

record module_state =
  pendingRequests :: "(string \<times> nat) list"
  started :: "TApiConfig list"
  controllers :: nat
  aborted :: "nat list"

datatype mutate_outcome = Joined nat | Awaiting string nat | Threw thrown

text \<open>\<open>abortControllerRef.current?.abort()\<close> and the new \<open>AbortController\<close>.\<close>

definition renew_controller :: "mutation_state \<Rightarrow> module_state \<Rightarrow> mutation_state \<times> module_state" where
  "renew_controller h w =
     (let w1 = (case abortControllerRef h of
                  Some c \<Rightarrow> w\<lparr>aborted := aborted w @ [c]\<rparr>
                | None \<Rightarrow> w)
      in (h\<lparr>abortControllerRef := Some (controllers w1)\<rparr>,
          w1\<lparr>controllers := Suc (controllers w1)\<rparr>))"

text \<open>The \<open>finally\<close> block.\<close>

definition forget :: "string \<Rightarrow> module_state \<Rightarrow> module_state" where
  "forget requestKey w =
     (if Map_has (pendingRequests w) requestKey
      then w\<lparr>pendingRequests := Map_delete requestKey (pendingRequests w)\<rparr>
      else w)"

text \<open>The config given to \<open>instance.get\<close> (method \<open>GET\<close>) or \<open>instance.request\<close>.\<close>

definition mutation_config ::
  "(TPrimitive \<Rightarrow> string) \<Rightarrow> string \<Rightarrow> TMutationOptions option \<Rightarrow> http_method
     \<Rightarrow> TRequest option \<Rightarrow> nat \<Rightarrow> TApiConfig" where
  "mutation_config enc u config m req sig =
     (let base = \<lparr> baseURL_cfg = None, url = u, http_method = Some m, body = None, mode = None,
                   retry = None,
                   headers = (case config of Some c \<Rightarrow> mo_headers c | None \<Rightarrow> None),
                   params = None,
                   cache_cfg = (case config of Some c \<Rightarrow> mo_cache c | None \<Rightarrow> None),
                   signal = Some sig, onUpload = None, onDownload = None \<rparr>;
          prog = (case config of Some c \<Rightarrow> mo_progress c | None \<Rightarrow> None)
      in if m = GET
         then base\<lparr>params := map_option as_params req,
                   onDownload := (if prog = Some Download then Some 0 else None)\<rparr>
         else base\<lparr>url := (if (case config of Some c \<Rightarrow> mo_queryMutation c = Some True | None \<Rightarrow> False)
                             then buildURL enc u (map_option as_params req) else u),
                   body := (case req of
                              Some r \<Rightarrow> if truthy r then Some (as_body r) else None
                            | None \<Rightarrow> None),
                   onUpload := (if prog = Some Upload then Some 0 else None)\<rparr>)"

definition mutation_method :: "TMutationOptions option \<Rightarrow> http_method" where
  "mutation_method config =
     (case config of
        Some c \<Rightarrow> (case mo_method c of Some m \<Rightarrow> m | None \<Rightarrow> GET)
      | None \<Rightarrow> GET)"

definition mutate_start ::
  "(string \<Rightarrow> http_method \<Rightarrow> TRequest option \<Rightarrow> thrown + string)
     \<Rightarrow> (TPrimitive \<Rightarrow> string) \<Rightarrow> string \<Rightarrow> TMutationOptions option \<Rightarrow> TRequest option
     \<Rightarrow> mutation_state \<Rightarrow> module_state \<Rightarrow> mutate_outcome \<times> mutation_state \<times> module_state" where
  "mutate_start stringify enc u config req h w =
     (case renew_controller h w of
        (h1, w1) \<Rightarrow>
          (let h2 = h1\<lparr>isLoading := True, progress := None\<rparr>;
               m = mutation_method config
           in case stringify u m req of
                Inl err \<Rightarrow>
                  (Threw err, h2\<lparr>isLoading := False, cacheKey_state := None, progress := None\<rparr>,
                   forget [] w1)
              | Inr requestKey \<Rightarrow>
                  (case Map_get (pendingRequests w1) requestKey of
                     Some p \<Rightarrow> (Joined p, h2, forget requestKey w1)
                   | None \<Rightarrow>
                       (let p = length (started w1);
                            sig = (case abortControllerRef h2 of Some c \<Rightarrow> c | None \<Rightarrow> 0)
                        in (Awaiting requestKey p, h2,
                            w1\<lparr>started := started w1 @ [mutation_config enc u config m req sig],
                               pendingRequests := Map_set requestKey p (pendingRequests w1)\<rparr>)))))"

definition mutate_settle ::
  "string \<Rightarrow> thrown + 'a TApiResponse \<Rightarrow> mutation_state \<Rightarrow> module_state
     \<Rightarrow> (thrown + 'a TApiResponse) \<times> mutation_state \<times> module_state" where
  "mutate_settle requestKey r h w =
     (case r of
        Inr response \<Rightarrow>
          (Inr response,
           h\<lparr>isLoading := False, cacheKey_state := cacheKey response, progress := None\<rparr>,
           forget requestKey w)
      | Inl err \<Rightarrow>
          (Inl err, h\<lparr>isLoading := False, cacheKey_state := None, progress := None\<rparr>,
           forget requestKey w))"


subsection \<open>\<open>useInfiniteFetch\<close>\<close>

text \<open>
  The hook keeps six state variables.  \<open>fetchPage\<close> is created by
  \<open>useCallback(..., [url, stableConfig, offsetKey])\<close>: a render creates a new closure only
  when one of these three dependencies has changed, and otherwise keeps the closure of an
  earlier render, with the values of \<open>items\<close> and \<open>setOffset\<close> that this earlier render
  saw.  The hook of the model therefore records, beside the state, the dependencies of
  the memoized \<open>fetchPage\<close> and the \<open>items\<close> and \<open>setOffset\<close> it has captured
  (\<open>memo_deps\<close>, \<open>memo_items\<close>, \<open>memo_setOffset\<close>).  \<open>config_deps\<close> stands for the
  dependencies of \<open>stableConfig\<close>.  \<open>setItems\<close> is called with an updater function and
  so works on the current items.  The two logs record the offsets fetched and the
  arguments of the calls of \<open>setOffset\<close>.  A call of \<open>fetchPage\<close> is modelled with its
  \<open>await\<close> resolved by the given outcome of \<open>instance.get\<close>.
\<close>

record 'a TInfiniteFetchOptions =
  initialOffset :: int
  offsetKey :: "string option"
  setOffset :: "'a \<Rightarrow> 'a list \<Rightarrow> int \<Rightarrow> thrown + int option"

record 'a infinite_props =
  url_prop :: string
  config_deps :: string
  options_prop :: "'a TInfiniteFetchOptions"

record 'a infinite_state =
  items :: "'a list"
  offset :: int
  isLoading_inf :: bool
  isFetchingNextPage :: bool
  hasNextPage :: bool
  error :: "thrown option"

record 'a infinite_hook =
  state :: "'a infinite_state"
  memo_deps :: "string \<times> string \<times> string option"
  memo_items :: "'a list"
  memo_setOffset :: "'a \<Rightarrow> 'a list \<Rightarrow> int \<Rightarrow> thrown + int option"
  offsets_fetched :: "int list"
  setOffset_calls :: "('a \<times> 'a list \<times> int) list"

definition fetchPage_deps :: "'a infinite_props \<Rightarrow> string \<times> string \<times> string option" where
  "fetchPage_deps props = (url_prop props, config_deps props, offsetKey (options_prop props))"

definition first_render :: "'a infinite_props \<Rightarrow> 'a infinite_hook" where
  "first_render props =
     \<lparr> state = \<lparr> items = [], offset = initialOffset (options_prop props), isLoading_inf = False,
                 isFetchingNextPage = False, hasNextPage = True, error = None \<rparr>,
       memo_deps = fetchPage_deps props, memo_items = [],
       memo_setOffset = setOffset (options_prop props),
       offsets_fetched = [], setOffset_calls = [] \<rparr>"

definition rerender :: "'a infinite_props \<Rightarrow> 'a infinite_hook \<Rightarrow> 'a infinite_hook" where
  "rerender props hk =
     (if memo_deps hk = fetchPage_deps props then hk
      else hk\<lparr>memo_deps := fetchPage_deps props, memo_items := items (state hk),
              memo_setOffset := setOffset (options_prop props)\<rparr>)"

definition fetchPage ::
  "int \<Rightarrow> bool \<Rightarrow> thrown + 'a TApiResponse \<Rightarrow> 'a infinite_hook \<Rightarrow> 'a infinite_hook" where
  "fetchPage offsetValue appending outcome hk =
     (let hk1 = hk\<lparr>offsets_fetched := offsets_fetched hk @ [offsetValue]\<rparr>;
          s0 = state hk1;
          settled = (\<lambda>s. s\<lparr>isLoading_inf := False, isFetchingNextPage := False\<rparr>)
      in case outcome of
           Inl err \<Rightarrow>
             hk1\<lparr>state := settled (if isAbortError err then s0 else s0\<lparr>error := Some err\<rparr>)\<rparr>
         | Inr response \<Rightarrow>
             (let d = data_res response;
                  s1 = s0\<lparr>items := (if appending then items s0 @ [d] else [d])\<rparr>;
                  allItems = (if appending then memo_items hk1 @ [d] else [d]);
                  hk2 = hk1\<lparr>setOffset_calls := setOffset_calls hk1 @ [(d, allItems, offsetValue)]\<rparr>
              in case memo_setOffset hk1 d allItems offsetValue of
                   Inl err \<Rightarrow>
                     hk2\<lparr>state := settled (if isAbortError err then s1 else s1\<lparr>error := Some err\<rparr>)\<rparr>
                 | Inr None \<Rightarrow> hk2\<lparr>state := settled (s1\<lparr>hasNextPage := False, error := None\<rparr>)\<rparr>
                 | Inr (Some nextOffset) \<Rightarrow>
                     hk2\<lparr>state := settled (s1\<lparr>hasNextPage := True, offset := nextOffset,
                                            error := None\<rparr>)\<rparr>))"

definition mount :: "'a infinite_props \<Rightarrow> thrown + 'a TApiResponse \<Rightarrow> 'a infinite_hook" where
  "mount props outcome =
     fetchPage (initialOffset (options_prop props)) False outcome (first_render props)"

definition fetchNextPage ::
  "'a infinite_props \<Rightarrow> thrown + 'a TApiResponse \<Rightarrow> 'a infinite_hook \<Rightarrow> 'a infinite_hook" where
  "fetchNextPage props outcome hk =
     (let hk1 = rerender props hk
      in if \<not> hasNextPage (state hk1) \<or> isFetchingNextPage (state hk1) then hk1
         else fetchPage (offset (state hk1)) True outcome hk1)"

definition refetch ::
  "'a infinite_props \<Rightarrow> thrown + 'a TApiResponse \<Rightarrow> 'a infinite_hook \<Rightarrow> 'a infinite_hook" where
  "refetch props outcome hk =
     (let hk1 = rerender props hk;
          s = (state hk1)\<lparr>items := [], offset := initialOffset (options_prop props),
                           hasNextPage := True\<rparr>
      in fetchPage (initialOffset (options_prop props)) False outcome (hk1\<lparr>state := s\<rparr>))"

section \<open>Sequences of cache operations\<close>

text \<open>
  The four private cache methods as steps on the instance.  Every public operation is a
  sequence of such steps: \<open>getCache\<close> is a \<open>StepGet\<close>, \<open>setCache\<close> a \<open>StepSet\<close>,
  \<open>removeCache\<close> a \<open>StepRemove\<close>, \<open>clearCache\<close> a \<open>StepClear\<close>, and \<open>request\<close> performs a
  \<open>StepGet\<close> for its lookup, a \<open>StepRemove\<close> for an expired entry and a \<open>StepSet\<close> when it
  stores the response.
\<close>

datatype 'a cache_step =
    StepGet string
  | StepSet string "'a TCacheEntry"
  | StepRemove string
  | StepClear

fun step :: "'a cache_step \<Rightarrow> 'a ApiInstance \<Rightarrow> 'a ApiInstance" where
  "step (StepGet k) st = snd (getCacheEntry k st)"
| "step (StepSet k en) st = setCacheEntry k en st"
| "step (StepRemove k) st = removeCacheEntry k st"
| "step StepClear st = clearCache st"

fun nonempty_key :: "'a cache_step \<Rightarrow> bool" where
  "nonempty_key (StepSet k en) = (k \<noteq> [])"
| "nonempty_key _ = True"

definition steps :: "'a cache_step list \<Rightarrow> 'a ApiInstance \<Rightarrow> 'a ApiInstance" where
  "steps xs st = foldl (\<lambda>s x. step x s) st xs"

definition cache_inv :: "'a ApiInstance \<Rightarrow> bool" where
  "cache_inv st =
     (distinct (map fst (cache st)) \<and> distinct (cacheAccessOrder st)
      \<and> set (cacheAccessOrder st) = set (map fst (cache st))
      \<and> Map_size (cache st) \<le> maxCacheSize st
      \<and> [] \<notin> set (cacheAccessOrder st))"

text \<open>
  The keys that a step accesses: a read that finds an entry, and every write.  The access
  log of a sequence of steps lists these keys in the order of the accesses.  \<open>remdups\<close>
  keeps the last occurrence of each key, so \<open>lru_inv\<close> says that the access order lists
  the keys of the cache by their most recent access, oldest first.
\<close>

fun touched :: "'a cache_step \<Rightarrow> 'a ApiInstance \<Rightarrow> string list" where
  "touched (StepGet k) st = (if Map_has (cache st) k then [k] else [])"
| "touched (StepSet k en) st = [k]"
| "touched (StepRemove k) st = []"
| "touched StepClear st = []"

fun access_log :: "'a cache_step list \<Rightarrow> 'a ApiInstance \<Rightarrow> string list" where
  "access_log [] st = []"
| "access_log (x # xs) st = touched x st @ access_log xs (step x st)"

definition lru_inv :: "string list \<Rightarrow> 'a ApiInstance \<Rightarrow> bool" where
  "lru_inv log st = (cacheAccessOrder st = filter (Map_has (cache st)) (remdups log))"

text \<open>The public operations of a client, and runs of them.\<close>

datatype 'a api_call =
    CallRequest "'a env" TApiConfig
  | CallGetCache string
  | CallSetCache string 'a "int option" int
  | CallRemoveCache string
  | CallClearCache

fun call :: "'a api_call \<Rightarrow> 'a ApiInstance \<Rightarrow> 'a ApiInstance" where
  "call (CallRequest e config) st = fst (snd (request e config st))"
| "call (CallGetCache key) st = snd (getCache key st)"
| "call (CallSetCache key d t now) st = setCache key d t now st"
| "call (CallRemoveCache key) st = removeCache key st"
| "call CallClearCache st = clearCache st"

definition calls :: "'a api_call list \<Rightarrow> 'a ApiInstance \<Rightarrow> 'a ApiInstance" where
  "calls cs st = foldl (\<lambda>s c. call c s) st cs"

fun nonempty_cache_key :: "'a api_call \<Rightarrow> bool" where
  "nonempty_cache_key (CallSetCache key d t now) = (key \<noteq> [])"
| "nonempty_cache_key _ = True"

section \<open>Concrete inputs\<close>

text \<open>Inputs at which the theorems below are instantiated.\<close>

definition okResponse :: "string Response" where
  "okResponse =
     \<lparr> ok = True, statusText = ''OK'', content_type = Some ''text/plain'',
       body_json = Inl (JsError ''SyntaxError'' ''Unexpected token''),
       body_text = Inr ''hello'', body_blob = Inr ''blob'', httpError = JsUndefined \<rparr>"

definition init0 :: RequestInit where
  "init0 = \<lparr> init_method = GET, init_headers = [], init_body = None, init_signal = None \<rparr>"

definition default_instance :: "string ApiInstance" where
  "default_instance =
     new_ApiInstance
       \<lparr> baseURL_opt = None, headers_opt = None, source_opt = None, maxCacheSize_opt = None \<rparr>"

definition get_users :: TApiConfig where
  "get_users =
     \<lparr> baseURL_cfg = None, url = ''/users'', http_method = Some GET, body = None, mode = None,
       retry = None, headers = None, params = None,
       cache_cfg = Some \<lparr> enabled = Some True, revalidate = Some 5000 \<rparr>,
       signal = None, onUpload = None, onDownload = None \<rparr>"

text \<open>A stand-in for \<open>JSON.stringify\<close> on the key object, for concrete runs.\<close>

definition stringify0 :: "string \<Rightarrow> params_t option \<Rightarrow> string" where
  "stringify0 u ps = u"

text \<open>
  A stand-in for \<open>encodeURIComponent\<close>, a network that always answers, an environment
  with \<open>Date.now()\<close> at 1000 and 1001, and an instance whose cache holds one entry, for
  the key of \<open>get_users\<close>, written at time 0 with a given ttl.
\<close>

definition enc0 :: "TPrimitive \<Rightarrow> string" where
  "enc0 p = (case p of PString s \<Rightarrow> s | PNumber n \<Rightarrow> ''0''
             | PBoolean b \<Rightarrow> (if b then ''true'' else ''false''))"

definition always_ok :: "nat \<Rightarrow> thrown + string Response" where
  "always_ok i = Inr okResponse"

definition env0 :: "string env" where
  "env0 = \<lparr> JSON_stringify = stringify0, JSON_stringify_body = (\<lambda>b. b),
            encodeURIComponent = enc0, fetch_result = always_ok,
            now_lookup = 1000, now_store = 1001, text_as_T = (\<lambda>t. t) \<rparr>"



text \<open>
  A response with status 404, a network that always answers with it, and interceptors:
  \<open>add_v2\<close> rewrites the URL, \<open>rescue\<close> replaces any response by \<open>okResponse\<close>,
  \<open>fallback\<close> resolves any error to a fixed value.
\<close>

definition notFound :: "string Response" where
  "notFound =
     \<lparr> ok = False, statusText = ''Not Found'', content_type = Some ''application/json'',
       body_json = Inr ''{}'', body_text = Inr ''{}'', body_blob = Inr ''{}'',
       httpError = ApiMeta 404 ''Not Found'' ''error'' \<rparr>"

definition always_404 :: "nat \<Rightarrow> thrown + string Response" where
  "always_404 i = Inr notFound"

definition env404 :: "string env" where
  "env404 = env0\<lparr>fetch_result := always_404\<rparr>"

definition add_v2 :: "TApiConfig \<Rightarrow> thrown + TApiConfig" where
  "add_v2 c = Inr (c\<lparr>url := ''/v2'' @ url c\<rparr>)"

definition rescue :: "string Response \<Rightarrow> thrown + string Response" where
  "rescue r = Inr okResponse"

definition fallback :: "thrown \<Rightarrow> thrown + string TApiResponse" where
  "fallback err = Inr \<lparr>data_res = ''fallback'', cacheKey = None, fromCache = False\<rparr>"

definition with_rescue :: "string ApiInstance" where
  "with_rescue =
     setInterceptors \<lparr>on_request = None, on_response = Some rescue, on_error = None\<rparr>
       default_instance"

definition with_all :: "string ApiInstance" where
  "with_all =
     setInterceptors \<lparr>on_request = Some add_v2, on_response = Some rescue, on_error = Some fallback\<rparr>
       default_instance"

definition json_init :: RequestInit where
  "json_init =
     \<lparr> init_method = GET, init_headers = [(''Content-Type'', ''application/json'')],
       init_body = None, init_signal = None \<rparr>"

text \<open>An instance with room for one entry, and the same after \<open>setCache("", "a")\<close>.\<close>

definition tiny :: "string ApiInstance" where
  "tiny =
     new_ApiInstance
       \<lparr> baseURL_opt = None, headers_opt = None, source_opt = None, maxCacheSize_opt = Some 1 \<rparr>"

definition tiny_with_empty_key :: "string ApiInstance" where
  "tiny_with_empty_key = setCache '''' ''a'' None 0 tiny"

text \<open>
  For the hooks: an offset callback that always advances by ten, the props of a paginated
  list, a page as the outcome of a fetch; a key function for \<open>mutate\<close>, the options of a
  \<open>POST\<close> mutation, an idle hook, and the module state before any call, after a first
  call of \<open>mutate\<close> and after a second call with the same key.
\<close>

definition by_ten :: "string \<Rightarrow> string list \<Rightarrow> int \<Rightarrow> thrown + int option" where
  "by_ten lastItems allItems lastOffset = Inr (Some (lastOffset + 10))"

definition users_pages :: "string infinite_props" where
  "users_pages =
     \<lparr> url_prop = ''/users'', config_deps = [],
       options_prop = \<lparr> initialOffset = 0, offsetKey = None, setOffset = by_ten \<rparr> \<rparr>"

definition page :: "string \<Rightarrow> thrown + string TApiResponse" where
  "page d = Inr \<lparr>data_res = d, cacheKey = None, fromCache = False\<rparr>"

definition url_as_key :: "string \<Rightarrow> http_method \<Rightarrow> TRequest option \<Rightarrow> thrown + string" where
  "url_as_key u m req = Inr u"

definition post_options :: "TMutationOptions option" where
  "post_options =
     Some \<lparr> mo_cache = None, mo_headers = None, mo_method = Some POST, mo_signal = None,
            mo_progress = None, mo_queryMutation = None \<rparr>"

definition idle_hook :: mutation_state where
  "idle_hook = \<lparr> abortControllerRef = None, isLoading = False, cacheKey_state = None,
                 progress = None \<rparr>"

definition no_requests :: module_state where
  "no_requests = \<lparr> pendingRequests = [], started = [], controllers = 0, aborted = [] \<rparr>"

definition after_first :: module_state where
  "after_first = snd (snd (mutate_start url_as_key enc0 ''/users'' post_options None idle_hook no_requests))"

definition after_second :: module_state where
  "after_second = snd (snd (mutate_start url_as_key enc0 ''/users'' post_options None idle_hook after_first))"

text \<open>A network that fails twice and then answers.\<close>

definition flaky :: "nat \<Rightarrow> thrown + string Response" where
  "flaky i = (if i < 2 then Inl (JsError ''TypeError'' ''Failed to fetch'') else Inr okResponse)"

text \<open>A network that fails once, and whose second call is aborted.\<close>

definition aborted_second :: "nat \<Rightarrow> thrown + string Response" where
  "aborted_second i =
     (if i < 1 then Inl (JsError ''TypeError'' ''Failed to fetch'')
      else if i = 1 then Inl (JsError ''AbortError'' ''The operation was aborted.'')
      else Inr okResponse)"

section \<open>Facts about the platform operations\<close>

lemma indexOf_ge: "indexOf xs k \<ge> -1"
  by (induction xs) (auto simp: Let_def)

lemma indexOf_absent: "indexOf xs k = -1 \<longleftrightarrow> k \<notin> set xs"
proof (induction xs)
  case Nil
  show ?case by simp
next
  case (Cons x xs)
  have "indexOf xs k = -1 \<or> indexOf xs k > -1"
    using indexOf_ge [of xs k] by linarith
  with Cons.IH show ?case by (auto simp: Let_def)
qed

lemma spliceOut_remove1: "spliceOut k xs = remove1 k xs"
proof (induction xs)
  case Nil
  show ?case by (simp add: spliceOut_def)
next
  case (Cons x xs)
  show ?case
  proof (cases "x = k")
    case True
    then show ?thesis by (simp add: spliceOut_def splice1_def)
  next
    case False
    note neq = this
    show ?thesis
    proof (cases "indexOf xs k > -1")
      case True
      then have "spliceOut k xs = splice1 xs (nat (indexOf xs k))"
        by (simp add: spliceOut_def)
      with Cons.IH have ih: "splice1 xs (nat (indexOf xs k)) = remove1 k xs" by simp
      have n: "nat (indexOf xs k + 1) = Suc (nat (indexOf xs k))"
        using True by simp
      show ?thesis
        using neq True ih by (simp add: spliceOut_def Let_def splice1_def n)
    next
      case False
      with indexOf_ge [of xs k] have "indexOf xs k = -1" by linarith
      then have "k \<notin> set xs" by (simp add: indexOf_absent)
      then show ?thesis
        using neq False by (simp add: spliceOut_def Let_def remove1_idem)
    qed
  qed
qed

lemma Map_get_set: "Map_get (Map_set k v m) k = Some v"
  by (simp add: Map_get_def Map_set_def update_conv')

text \<open>
  C9: for every key, data, ttl and prior state of the instance, \<open>getCache k\<close> right after
  \<open>setCache k d t\<close> returns \<open>d\<close>.  The entry is stored with its ttl and the time of the
  write, but the time of the read is no argument of \<open>getCache\<close>: neither it nor
  \<open>getCacheEntry\<close> looks at \<open>timestamp\<close> or \<open>ttl\<close>, so the entry is returned however long
  after the write the read happens.  (The expiry test is part of \<open>request\<close> only.)
\<close>

theorem C9_getCache_after_setCache:
  "fst (getCache k (setCache k d t now st)) = Some d
   \<and> Map_get (cache (setCache k d t now st)) k = Some \<lparr>data = d, timestamp = now, ttl = t\<rparr>"
  by (simp add: getCache_def setCache_def setCacheEntry_def getCacheEntry_def Let_def
      Map_get_set split: option.splits prod.splits)

section \<open>The retry loop\<close>

lemma loop_char:
  "int attempt \<le> retry_n \<Longrightarrow>
   \<exists>n. 1 \<le> n \<and> int (attempt + n) \<le> retry_n + 1
     \<and> snd (fetchWithRetry_loop fetch sent retry_n attempt lastErr) = backoff_schedule sent attempt n
     \<and> fst (fetchWithRetry_loop fetch sent retry_n attempt lastErr)
         = attempt_outcome (fetch (attempt + n - 1))
     \<and> (\<forall>i. attempt \<le> i \<and> i < attempt + n - 1 \<longrightarrow> retryable (fetch i))
     \<and> (int (attempt + n) < retry_n + 1 \<longrightarrow> \<not> retryable (fetch (attempt + n - 1)))"
proof (induction fetch sent retry_n attempt lastErr rule: fetchWithRetry_loop.induct)
  case (1 fetch sent retry_n attempt lastErr)
  show ?case
  proof (cases "retryable (fetch attempt) \<and> int attempt \<noteq> retry_n")
    case False
    then have "fetchWithRetry_loop fetch sent retry_n attempt lastErr
        = (attempt_outcome (fetch attempt), [sent])"
      using "1.prems"
      by (subst fetchWithRetry_loop.simps) (auto simp: retryable_def split: sum.splits)
    then show ?thesis using False "1.prems"
      by (intro exI [of _ 1]) auto
  next
    case True
    then obtain err where err: "attempt_outcome (fetch attempt) = Inl err" "\<not> isAbortError err"
      by (auto simp: retryable_def split: sum.splits)
    have lt: "int (attempt + 1) \<le> retry_n" using True "1.prems" by simp
    from "1.IH" [OF "1.prems" err(1) err(2) _ lt] True
    obtain n where n: "1 \<le> n" "int (attempt + 1 + n) \<le> retry_n + 1"
      "snd (fetchWithRetry_loop fetch sent retry_n (attempt + 1) err)
         = backoff_schedule sent (attempt + 1) n"
      "fst (fetchWithRetry_loop fetch sent retry_n (attempt + 1) err)
         = attempt_outcome (fetch (attempt + 1 + n - 1))"
      "\<forall>i. attempt + 1 \<le> i \<and> i < attempt + 1 + n - 1 \<longrightarrow> retryable (fetch i)"
      "int (attempt + 1 + n) < retry_n + 1 \<longrightarrow> \<not> retryable (fetch (attempt + 1 + n - 1))"
      by auto
    obtain m where m: "n = Suc m" using n(1) by (cases n) auto
    have unfold: "fetchWithRetry_loop fetch sent retry_n attempt lastErr =
        (fst (fetchWithRetry_loop fetch sent retry_n (attempt + 1) err),
         sent # SetTimeout (2 ^ attempt * 200)
           # snd (fetchWithRetry_loop fetch sent retry_n (attempt + 1) err))"
      using "1.prems" err True
      by (subst fetchWithRetry_loop.simps) (simp split: prod.splits)
    have all: "\<forall>i. attempt \<le> i \<and> i < attempt + Suc n - 1 \<longrightarrow> retryable (fetch i)"
    proof (intro allI impI)
      fix i assume i: "attempt \<le> i \<and> i < attempt + Suc n - 1"
      show "retryable (fetch i)"
      proof (cases "i = attempt")
        case True
        then show ?thesis using \<open>retryable (fetch attempt) \<and> int attempt \<noteq> retry_n\<close> by simp
      next
        case False
        then show ?thesis using n(5) i by auto
      qed
    qed
    show ?thesis
      apply (rule exI [of _ "Suc n"])
      using n all unfold m by (simp add: add.commute)
  qed
qed

lemma schedule_sends: "length (filter isSend (backoff_schedule (Send t u i) a n)) = n"
  by (induction "Send t u i" a n rule: backoff_schedule.induct) auto

lemma fetchWithRetry_char:
  assumes "0 \<le> r"
  shows "\<exists>n. 1 \<le> n \<and> int n \<le> r + 1
     \<and> snd (fetchWithRetry fetch input init r sig onUp onDown)
         = backoff_schedule (transport_call input init sig onUp onDown) 0 n
     \<and> fst (fetchWithRetry fetch input init r sig onUp onDown) = attempt_outcome (fetch (n - 1))
     \<and> (\<forall>i. i < n - 1 \<longrightarrow> retryable (fetch i))
     \<and> (int n < r + 1 \<longrightarrow> \<not> retryable (fetch (n - 1)))"
proof -
  have "int 0 \<le> r" using assms by simp
  from loop_char [OF this, of fetch "transport_call input init sig onUp onDown" JsUndefined]
  show ?thesis by (simp add: fetchWithRetry_def)
qed

text \<open>
  C4: for a retry count \<open>r \<ge> 0\<close>, \<open>fetchWithRetry\<close> makes some number \<open>n\<close> of attempts
  with \<open>1 \<le> n \<le> r + 1\<close>; its events are exactly the \<open>n\<close> transport calls, each but the
  last followed by the timer \<open>2 ^ attempt * 200\<close> ms (200, 400, 800, \<dots>), and every
  attempt before the last one failed; the outcome of the last attempt made is what is
  returned or thrown.  Hence the first successful response is returned (second conjunct),
  and when all \<open>r + 1\<close> attempts fail, \<open>r + 1\<close> calls are made and the error of the last
  attempt is thrown (third conjunct).  The delay is the argument of \<open>setTimeout\<close>.
\<close>

theorem C4_fetchWithRetry:
  assumes "0 \<le> r"
  shows "(\<exists>n. 1 \<le> n \<and> int n \<le> r + 1
            \<and> snd (fetchWithRetry fetch input init r sig onUp onDown)
                = backoff_schedule (transport_call input init sig onUp onDown) 0 n
            \<and> length (filter isSend (snd (fetchWithRetry fetch input init r sig onUp onDown))) = n
            \<and> fst (fetchWithRetry fetch input init r sig onUp onDown)
                = attempt_outcome (fetch (n - 1))
            \<and> (\<forall>i. i < n - 1 \<longrightarrow> retryable (fetch i)))
       \<and> (\<forall>i res. int i \<le> r \<and> attempt_outcome (fetch i) = Inr res
                    \<and> (\<forall>j. j < i \<longrightarrow> retryable (fetch j))
             \<longrightarrow> fst (fetchWithRetry fetch input init r sig onUp onDown) = Inr res)
       \<and> ((\<forall>j. int j \<le> r \<longrightarrow> retryable (fetch j))
             \<longrightarrow> fst (fetchWithRetry fetch input init r sig onUp onDown)
                   = attempt_outcome (fetch (nat r))
               \<and> length (filter isSend (snd (fetchWithRetry fetch input init r sig onUp onDown)))
                   = nat r + 1)"
proof -
  from fetchWithRetry_char [OF assms, of fetch input init sig onUp onDown]
  obtain n where n: "1 \<le> n" "int n \<le> r + 1"
    "snd (fetchWithRetry fetch input init r sig onUp onDown)
       = backoff_schedule (transport_call input init sig onUp onDown) 0 n"
    "fst (fetchWithRetry fetch input init r sig onUp onDown) = attempt_outcome (fetch (n - 1))"
    "\<forall>i. i < n - 1 \<longrightarrow> retryable (fetch i)"
    "int n < r + 1 \<longrightarrow> \<not> retryable (fetch (n - 1))"
    by blast
  have cnt: "length (filter isSend (snd (fetchWithRetry fetch input init r sig onUp onDown))) = n"
    by (simp add: n(3) transport_call_def schedule_sends)
  have first: "fst (fetchWithRetry fetch input init r sig onUp onDown) = Inr res"
    if i: "int i \<le> r" "attempt_outcome (fetch i) = Inr res" "\<forall>j. j < i \<longrightarrow> retryable (fetch j)"
    for i res
  proof -
    have nr: "\<not> retryable (fetch i)" using i(2) by (simp add: retryable_def)
    have "\<not> i < n - 1" using n(5) nr by blast
    moreover have "\<not> n - 1 < i"
    proof
      assume lt: "n - 1 < i"
      then have "int n < r + 1" using i(1) n(1) by linarith
      then have "\<not> retryable (fetch (n - 1))" using n(6) by blast
      then show False using i(3) lt by blast
    qed
    ultimately have "n - 1 = i" by linarith
    then show ?thesis using n(4) i(2) by simp
  qed
  have last: "fst (fetchWithRetry fetch input init r sig onUp onDown)
        = attempt_outcome (fetch (nat r))
      \<and> length (filter isSend (snd (fetchWithRetry fetch input init r sig onUp onDown)))
        = nat r + 1"
    if all: "\<forall>j. int j \<le> r \<longrightarrow> retryable (fetch j)"
  proof -
    have "\<not> int n < r + 1"
    proof
      assume lt: "int n < r + 1"
      then have "\<not> retryable (fetch (n - 1))" using n(6) by blast
      moreover have "int (n - 1) \<le> r" using lt n(1) by linarith
      ultimately show False using all by blast
    qed
    then have "n = nat r + 1" using n(2) assms by linarith
    then show ?thesis using n(4) cnt by simp
  qed
  show ?thesis
    using n(1,2,3,4,5) cnt first last by blast
qed

theorem C4_fetchWithRetry_witness:
  "(0::int) \<le> 3 \<and> fetchWithRetry flaky ''/users'' init0 3 None None None
     = (Inr okResponse,
        [Send ViaFetch ''/users'' init0, SetTimeout 200,
         Send ViaFetch ''/users'' init0, SetTimeout 400,
         Send ViaFetch ''/users'' init0])"
proof -
  have r: "(0::int) \<le> 3" by simp
  have run: "snd (fetchWithRetry flaky ''/users'' init0 3 None None None)
     = [Send ViaFetch ''/users'' init0, SetTimeout 200,
        Send ViaFetch ''/users'' init0, SetTimeout 400,
        Send ViaFetch ''/users'' init0]"
    by (simp add: fetchWithRetry_def transport_call_def fetchWithRetry_loop.simps flaky_def
        attempt_outcome_def okResponse_def init0_def)
  have "fst (fetchWithRetry flaky ''/users'' init0 3 None None None) = Inr okResponse"
  proof -
    have "int 2 \<le> 3 \<and> attempt_outcome (flaky 2) = Inr okResponse
        \<and> (\<forall>j. j < 2 \<longrightarrow> retryable (flaky j))"
      by (simp add: flaky_def attempt_outcome_def retryable_def okResponse_def)
    with C4_fetchWithRetry [OF r, of flaky "''/users''" init0 None None None]
    show ?thesis by blast
  qed
  with r run show ?thesis by (simp add: prod_eq_iff)
qed

text \<open>
  C10: at every attempt index within the retry budget and whatever the budget that
  remains, an attempt that fails with an \<open>Error\<close> named \<open>AbortError\<close> (the test is
  \<open>err instanceof Error && err.name === "AbortError"\<close>) ends the loop: the
  error is thrown, and from that state on the only event is the transport call of this
  attempt, so no timer is set and no further attempt is made.  For the whole call: when
  the attempts before index \<open>attempt\<close> fail otherwise and this one is aborted, exactly
  \<open>attempt + 1\<close> calls are made and the abort error is thrown.
\<close>

theorem C10_abort_not_retried:
  assumes "int attempt \<le> retry_n"
    and "attempt_outcome (fetch attempt) = Inl err"
    and "isAbortError err"
  shows "fetchWithRetry_loop fetch sent retry_n attempt lastErr = (Inl err, [sent])
       \<and> ((\<forall>j. j < attempt \<longrightarrow> retryable (fetch j))
            \<longrightarrow> fetchWithRetry fetch input init retry_n sig onUp onDown
                = (Inl err,
                   backoff_schedule (transport_call input init sig onUp onDown) 0 (Suc attempt)))"
proof -
  have one: "fetchWithRetry_loop fetch sent retry_n attempt lastErr = (Inl err, [sent])"
    using assms by (subst fetchWithRetry_loop.simps) simp
  have whole: "fetchWithRetry fetch input init retry_n sig onUp onDown
      = (Inl err, backoff_schedule (transport_call input init sig onUp onDown) 0 (Suc attempt))"
    if before: "\<forall>j. j < attempt \<longrightarrow> retryable (fetch j)"
  proof -
    have r0: "0 \<le> retry_n" using assms(1) by linarith
    from fetchWithRetry_char [OF r0, of fetch input init sig onUp onDown]
    obtain n where n: "1 \<le> n" "int n \<le> retry_n + 1"
      "snd (fetchWithRetry fetch input init retry_n sig onUp onDown)
         = backoff_schedule (transport_call input init sig onUp onDown) 0 n"
      "fst (fetchWithRetry fetch input init retry_n sig onUp onDown)
         = attempt_outcome (fetch (n - 1))"
      "\<forall>i. i < n - 1 \<longrightarrow> retryable (fetch i)"
      "int n < retry_n + 1 \<longrightarrow> \<not> retryable (fetch (n - 1))"
      by blast
    have nr: "\<not> retryable (fetch attempt)" using assms(2,3) by (simp add: retryable_def)
    have "\<not> attempt < n - 1" using n(5) nr by blast
    moreover have "\<not> n - 1 < attempt"
    proof
      assume lt: "n - 1 < attempt"
      then have "int n < retry_n + 1" using assms(1) n(1) by linarith
      then have "\<not> retryable (fetch (n - 1))" using n(6) by blast
      then show False using before lt by blast
    qed
    ultimately have "n = Suc attempt" using n(1) by linarith
    then show ?thesis using n(3,4) assms(2) by (simp add: prod_eq_iff)
  qed
  from one whole show ?thesis by blast
qed

theorem C10_abort_not_retried_witness:
  "int 1 \<le> 5 \<and> isAbortError (JsError ''AbortError'' ''The operation was aborted.'')
   \<and> fetchWithRetry aborted_second ''/users'' init0 5 None None None
     = (Inl (JsError ''AbortError'' ''The operation was aborted.''),
        [Send ViaFetch ''/users'' init0, SetTimeout 200, Send ViaFetch ''/users'' init0])"
proof -
  have a: "int 1 \<le> 5" by simp
  have b: "attempt_outcome (aborted_second 1)
      = Inl (JsError ''AbortError'' ''The operation was aborted.'')"
    by (simp add: aborted_second_def attempt_outcome_def)
  have c: "isAbortError (JsError ''AbortError'' ''The operation was aborted.'')" by simp
  have d: "\<forall>j. j < 1 \<longrightarrow> retryable (aborted_second j)"
    by (simp add: retryable_def aborted_second_def attempt_outcome_def)
  from C10_abort_not_retried
    [where attempt = 1 and retry_n = 5 and fetch = aborted_second
       and err = "JsError ''AbortError'' ''The operation was aborted.''"
       and sent = "Send ViaFetch ''/users'' init0" and lastErr = JsUndefined
       and input = "''/users''" and init = init0 and sig = None and onUp = None and onDown = None,
     OF a b c] d
  have "fetchWithRetry aborted_second ''/users'' init0 5 None None None
     = (Inl (JsError ''AbortError'' ''The operation was aborted.''),
        backoff_schedule (transport_call ''/users'' init0 None None None) 0 (Suc 1))"
    by blast
  then show ?thesis using a c
    by (simp add: transport_call_def init0_def numeral_2_eq_2)
qed

section \<open>The cache key\<close>

lemma hash_abc: "hash ''abc'' = ''22ci''"
proof -
  have "foldl hash_step 0 ''abc'' = 96354"
    by (simp add: hash_step_def toInt32_def)
  then show ?thesis
    unfolding hash_def
    by (simp add: toString36_def digits36.simps [of 96354] digits36.simps [of 2676]
        digits36.simps [of 74] digits36.simps [of 2])
qed

lemma hash_step_range: "- 2147483648 \<le> hash_step h c \<and> hash_step h c < 2147483648"
  by (simp add: hash_step_def toInt32_def)



section \<open>The cache in the request pipeline\<close>










text \<open>Evaluation of the model at the concrete inputs.\<close>

lemmas run_defs =
  request_def request_try_def request_network_def sendRequest_def handleInterceptors_def handleResponse_def
  handleError_def cacheable_def expired_def buildcacheKey_def getCacheEntry_def
  removeCacheEntry_def setCacheEntry_def setCache_def evictOldest_def
  Map_get_def Map_has_def Map_set_def Map_delete_def Map_size_def spliceOut_def splice1_def
  fetchWithRetry_def transport_call_def fetchWithRetry_loop.simps attempt_outcome_def
  requestInit_def spread_def isFormData_def readBody_def buildURL_def
  default_instance_def new_ApiInstance_def get_users_def stringify0_def Let_def





section \<open>Interceptors in the request pipeline\<close>

lemma loop_Inr_ok:
  "fst (fetchWithRetry_loop fetch sent retry_n attempt lastErr) = Inr res \<Longrightarrow> ok res"
proof (induction fetch sent retry_n attempt lastErr rule: fetchWithRetry_loop.induct)
  case (1 fetch sent retry_n attempt lastErr)
  show ?case
    using "1.prems" "1.IH"
    by (subst (asm) fetchWithRetry_loop.simps)
       (auto simp: attempt_outcome_def split: if_splits sum.splits prod.splits)
qed

lemma loop_events:
  "ev \<in> set (snd (fetchWithRetry_loop fetch sent retry_n attempt lastErr))
   \<Longrightarrow> ev = sent \<or> (\<exists>d. ev = SetTimeout d)"
proof (induction fetch sent retry_n attempt lastErr rule: fetchWithRetry_loop.induct)
  case (1 fetch sent retry_n attempt lastErr)
  show ?case
    using "1.prems" "1.IH"
    by (subst (asm) fetchWithRetry_loop.simps)
       (auto split: if_splits sum.splits prod.splits)
qed

lemma sendRequest_ok:
  assumes "sendRequest e fc st = (Inr response, evs)"
  shows "ok response"
proof -
  from assms have "fst (sendRequest e fc st) = Inr response" by simp
  then show ?thesis
    unfolding sendRequest_def fetchWithRetry_def Let_def by (rule loop_Inr_ok)
qed

lemma sendRequest_events:
  assumes "sendRequest e fc st = (r, evs)"
  shows "CallResponseInterceptor \<notin> set evs"
proof
  assume "CallResponseInterceptor \<in> set evs"
  with assms have "CallResponseInterceptor \<in> set (snd (sendRequest e fc st))" by simp
  then have "CallResponseInterceptor
      = transport_call
          (buildURL (encodeURIComponent e)
             (if baseURL st \<noteq> [] then baseURL st @ url fc else url fc) (params fc))
          (requestInit e st fc) (signal fc) (onUpload fc) (onDownload fc)
    \<or> (\<exists>d. CallResponseInterceptor = SetTimeout d)"
    unfolding sendRequest_def fetchWithRetry_def Let_def by (rule loop_events)
  then show False by (simp add: transport_call_def)
qed

lemma sendRequest_interceptors:
  "sendRequest e fc (st\<lparr>interceptors := i\<rparr>) = sendRequest e fc st"
  by (simp add: sendRequest_def requestInit_def)

lemma setCacheEntry_interceptors:
  "setCacheEntry key entry (st\<lparr>interceptors := i\<rparr>) = (setCacheEntry key entry st)\<lparr>interceptors := i\<rparr>"
  by (simp add: setCacheEntry_def evictOldest_def Let_def split: prod.splits option.splits)

lemma removeCacheEntry_interceptors:
  "removeCacheEntry key (st\<lparr>interceptors := i\<rparr>) = (removeCacheEntry key st)\<lparr>interceptors := i\<rparr>"
  by (simp add: removeCacheEntry_def)

lemma getCacheEntry_interceptors:
  "getCacheEntry key (st\<lparr>interceptors := i\<rparr>)
     = (fst (getCacheEntry key st), (snd (getCacheEntry key st))\<lparr>interceptors := i\<rparr>)"
  by (simp add: getCacheEntry_def split: option.splits)

lemma request_network_interceptors:
  assumes "on_response i = on_response (interceptors st)"
  shows "request_network e fc key (st\<lparr>interceptors := i\<rparr>)
     = (case request_network e fc key st of (r, st', evs) \<Rightarrow> (r, st'\<lparr>interceptors := i\<rparr>, evs))"
  using assms
  by (simp add: request_network_def sendRequest_interceptors handleResponse_def
      setCacheEntry_interceptors split: prod.splits sum.splits option.splits)

lemma request_network_keeps:
  "request_network e fc key st = (r, st', evs) \<Longrightarrow> interceptors st' = interceptors st"
  by (auto simp: request_network_def setCacheEntry_def evictOldest_def Let_def
      split: prod.splits sum.splits option.splits if_splits list.splits)


lemma getCacheEntry_keeps: "interceptors (snd (getCacheEntry key st)) = interceptors st"
  by (simp add: getCacheEntry_def split: option.splits)

lemma removeCacheEntry_keeps: "interceptors (removeCacheEntry key st) = interceptors st"
  by (simp add: removeCacheEntry_def)

lemma back_again:
  "interceptors s = j \<Longrightarrow> s\<lparr>interceptors := i\<rparr>\<lparr>interceptors := j\<rparr> = s"
  by auto

lemma request_network_back:
  assumes "on_response i = on_response (interceptors s)"
  shows "(case request_network e fc key (s\<lparr>interceptors := i\<rparr>) of
            (r, st', evs') \<Rightarrow> (r, st'\<lparr>interceptors := interceptors s\<rparr>, evs0 @ evs'))
       = (case request_network e fc key s of (r, st', evs') \<Rightarrow> (r, st', evs0 @ evs'))"
proof -
  obtain r st' evs' where run: "request_network e fc key s = (r, st', evs')"
    by (cases "request_network e fc key s") auto
  have k: "interceptors st' = interceptors s" using run by (rule request_network_keeps)
  show ?thesis
    using request_network_interceptors [OF assms, of e fc key] run k
    by (simp add: back_again)
qed

lemma request_try_interceptor:
  assumes f: "on_request (interceptors st) = Some f" "f config = Inr fc"
  shows "request_try e config st
     = (case request_try e fc (st\<lparr>interceptors := (interceptors st)\<lparr>on_request := None\<rparr>\<rparr>) of
          (r, st', evs) \<Rightarrow>
            (r, st'\<lparr>interceptors := interceptors st\<rparr>, CallRequestInterceptor config # evs))"
proof -
  let ?i = "(interceptors st)\<lparr>on_request := None\<rparr>"
  have r: "on_response ?i = on_response (interceptors s)" if "interceptors s = interceptors st" for s :: "'a ApiInstance"
    using that by simp
  have key: "buildcacheKey (JSON_stringify e) (st\<lparr>interceptors := ?i\<rparr>) fc
      = buildcacheKey (JSON_stringify e) st fc"
    by (simp add: buildcacheKey_def Let_def)
  have l: "handleInterceptors st config = (Inr fc, [CallRequestInterceptor config])"
    using f by (simp add: handleInterceptors_def)
  have rr: "handleInterceptors (st\<lparr>interceptors := ?i\<rparr>) fc = (Inr fc, [])"
    by (simp add: handleInterceptors_def)
  let ?key = "buildcacheKey (JSON_stringify e) st fc"
  have n1: "(case request_network e fc ?key (s\<lparr>interceptors := ?i\<rparr>) of
            (r, st', evs') \<Rightarrow> (r, st'\<lparr>interceptors := interceptors s\<rparr>, [CallRequestInterceptor config] @ evs'))
       = (case request_network e fc ?key s of (r, st', evs') \<Rightarrow> (r, st', [CallRequestInterceptor config] @ evs'))"
    if "interceptors s = interceptors st" for s :: "'a ApiInstance"
    by (rule request_network_back) (simp add: that)
  show ?thesis
  proof (cases "cacheable fc")
    case False
    then show ?thesis
      using n1 [of st]
      by (simp add: request_try_def l rr key Let_def split: prod.splits)
  next
    case True
    show ?thesis
    proof (cases "Map_get (cache st) ?key")
      case None
      then have g: "getCacheEntry ?key st = (None, st)" by (simp add: getCacheEntry_def)
      show ?thesis
        using True n1 [of st] g
        by (simp add: request_try_def l rr key Let_def getCacheEntry_interceptors split: prod.splits)
    next
      case (Some entry)
      then have gf: "fst (getCacheEntry ?key st) = Some entry"
        by (simp add: getCacheEntry_def)
      have k1: "interceptors (snd (getCacheEntry ?key st)) = interceptors st"
        by (rule getCacheEntry_keeps)
      have k2: "interceptors (removeCacheEntry ?key (snd (getCacheEntry ?key st))) = interceptors st"
        by (simp add: removeCacheEntry_keeps getCacheEntry_keeps)
      show ?thesis
      proof (cases "expired entry (now_lookup e)")
        case False
        then show ?thesis
          using True gf k1
          by (simp add: request_try_def l rr key Let_def getCacheEntry_interceptors back_again
              case_prod_beta)
      next
        case ex: True
        from n1 [OF k2] show ?thesis
          using True gf ex
          unfolding k2
          by (simp add: request_try_def l rr key Let_def getCacheEntry_interceptors
              removeCacheEntry_interceptors case_prod_beta)
      qed
    qed
  qed
qed


lemma request_try_keeps:
  assumes "request_try e config st = (r, st', evs)"
  shows "interceptors st' = interceptors st"
proof -
  have n: "interceptors (fst (snd (request_network e fc key s))) = interceptors s"
    for fc key and s :: "'a ApiInstance"
    using request_network_keeps [of e fc key s] by (cases "request_network e fc key s") auto
  show ?thesis
    using assms
    by (auto simp: request_try_def Let_def case_prod_beta n getCacheEntry_keeps
        removeCacheEntry_keeps split: sum.splits option.splits if_splits)
qed

lemma request_interceptor:
  assumes f: "on_request (interceptors st) = Some f" "f config = Inr fc"
  shows "request e config st
     = (case request e fc (st\<lparr>interceptors := (interceptors st)\<lparr>on_request := None\<rparr>\<rparr>) of
          (r, st', evs) \<Rightarrow>
            (r, st'\<lparr>interceptors := interceptors st\<rparr>, CallRequestInterceptor config # evs))"
proof -
  let ?st0 = "st\<lparr>interceptors := (interceptors st)\<lparr>on_request := None\<rparr>\<rparr>"
  obtain r st0' evs where run: "request_try e fc ?st0 = (r, st0', evs)"
    by (cases "request_try e fc ?st0") auto
  have k: "interceptors st0' = (interceptors st)\<lparr>on_request := None\<rparr>"
    using request_try_keeps [OF run] by simp
  have l: "request_try e config st
      = (r, st0'\<lparr>interceptors := interceptors st\<rparr>, CallRequestInterceptor config # evs)"
    using request_try_interceptor [OF f, of e] run by simp
  show ?thesis
    using l run k
    by (cases r) (simp_all add: request_def handleError_def split: option.splits)
qed

text \<open>
  C8 (amended).  (1) When a request interceptor is registered and returns a config, the
  request behaves exactly as a request for the returned config on an instance without
  request interceptor would, the call of the interceptor coming first: cache key, URL and
  transport call are those of the returned config.  (2) When a response interceptor is
  registered, every response that \<open>fetchWithRetry\<close> returns is \<open>ok\<close> (it has passed the
  status check inside the retry loop) and is passed through the interceptor; what
  \<open>request\<close> then checks and parses is the interceptor's result.  (3) When
  \<open>fetchWithRetry\<close> throws, which it does for every response that is not \<open>ok\<close>, the
  response interceptor is not called.  (4) Every error of the \<open>try\<close> block is given to
  the error interceptor when one is registered, and is thrown unchanged otherwise.
\<close>

theorem C8_amended:
  "(\<forall>f fc. on_request (interceptors st) = Some f \<and> f config = Inr fc \<longrightarrow>
      request e config st
        = (case request e fc (st\<lparr>interceptors := (interceptors st)\<lparr>on_request := None\<rparr>\<rparr>) of
             (r, st', evs) \<Rightarrow>
               (r, st'\<lparr>interceptors := interceptors st\<rparr>, CallRequestInterceptor config # evs)))
   \<and> (\<forall>g fc key response evs.
        on_response (interceptors st) = Some g \<and> sendRequest e fc st = (Inr response, evs) \<longrightarrow>
          ok response
          \<and> fst (request_network e fc key st)
              = (case g response of
                   Inl err \<Rightarrow> Inl err
                 | Inr finalResponse \<Rightarrow>
                     (case readBody e finalResponse of
                        Inl err \<Rightarrow> Inl err
                      | Inr d \<Rightarrow> Inr \<lparr>data_res = d, cacheKey = Some key, fromCache = False\<rparr>))
          \<and> snd (snd (request_network e fc key st)) = evs @ [CallResponseInterceptor])
   \<and> (\<forall>fc key err evs. sendRequest e fc st = (Inl err, evs) \<longrightarrow>
          request_network e fc key st = (Inl err, st, evs)
          \<and> CallResponseInterceptor \<notin> set evs)
   \<and> (\<forall>err st' evs. request_try e config st = (Inl err, st', evs) \<longrightarrow>
          request e config st
            = (case on_error (interceptors st) of
                 Some h \<Rightarrow> (h err, st', evs @ [CallErrorInterceptor err])
               | None \<Rightarrow> (Inl err, st', evs)))"
proof (intro conjI allI impI)
  fix f fc
  assume "on_request (interceptors st) = Some f \<and> f config = Inr fc"
  then show "request e config st
        = (case request e fc (st\<lparr>interceptors := (interceptors st)\<lparr>on_request := None\<rparr>\<rparr>) of
             (r, st', evs) \<Rightarrow>
               (r, st'\<lparr>interceptors := interceptors st\<rparr>, CallRequestInterceptor config # evs))"
    using request_interceptor by blast
next
  fix g fc key response evs
  assume h: "on_response (interceptors st) = Some g \<and> sendRequest e fc st = (Inr response, evs)"
  then show "ok response" using sendRequest_ok by blast
  show "fst (request_network e fc key st)
      = (case g response of
           Inl err \<Rightarrow> Inl err
         | Inr finalResponse \<Rightarrow>
             (case readBody e finalResponse of
                Inl err \<Rightarrow> Inl err
              | Inr d \<Rightarrow> Inr \<lparr>data_res = d, cacheKey = Some key, fromCache = False\<rparr>))"
    using h by (simp add: request_network_def handleResponse_def split: sum.splits)
  show "snd (snd (request_network e fc key st)) = evs @ [CallResponseInterceptor]"
    using h by (simp add: request_network_def handleResponse_def split: sum.splits)
next
  fix fc key err evs
  assume h: "sendRequest e fc st = (Inl err, evs)"
  then show "request_network e fc key st = (Inl err, st, evs)"
    by (simp add: request_network_def)
  show "CallResponseInterceptor \<notin> set evs" using h by (rule sendRequest_events)
next
  fix err st' evs
  assume h: "request_try e config st = (Inl err, st', evs)"
  have "interceptors st' = interceptors st" using h by (rule request_try_keeps)
  then show "request e config st
      = (case on_error (interceptors st) of
           Some h \<Rightarrow> (h err, st', evs @ [CallErrorInterceptor err])
         | None \<Rightarrow> (Inl err, st', evs))"
    using h by (simp add: request_def handleError_def split: option.splits)
qed


lemmas run_defs2 = run_defs setInterceptors_def env0_def env404_def always_ok_def always_404_def
  okResponse_def notFound_def add_v2_def rescue_def fallback_def json_init_def

text \<open>
  C8 as stated fails for a response that is not \<open>ok\<close>: with \<open>rescue\<close> registered, which
  would turn any response it is given into a successful one, a 404 response is
  status-checked and thrown by \<open>fetchWithRetry\<close>, and the only event is the transport call.
\<close>

theorem C8_counterexample:
  "on_response (interceptors with_rescue) = Some rescue
   \<and> fetch_result env404 0 = Inr notFound
   \<and> request env404 get_users with_rescue
       = (Inl (ApiMeta 404 ''Not Found'' ''error''), with_rescue, [Send ViaFetch ''/users'' json_init])"
  by (simp add: with_rescue_def run_defs2)

theorem C8_amended_witness:
  "fst (request env0 get_users with_all)
     = Inr \<lparr>data_res = ''hello'', cacheKey = Some ''komcards-default:/v2/users'', fromCache = False\<rparr>
   \<and> snd (snd (request env0 get_users with_all))
     = [CallRequestInterceptor get_users, Send ViaFetch ''/v2/users'' json_init,
        CallResponseInterceptor]
   \<and> request env404 get_users with_all
     = (Inr \<lparr>data_res = ''fallback'', cacheKey = None, fromCache = False\<rparr>, with_all,
        [CallRequestInterceptor get_users, Send ViaFetch ''/v2/users'' json_init,
         CallErrorInterceptor (ApiMeta 404 ''Not Found'' ''error'')])"
proof -
  note inst = C8_amended [where st = with_all and config = get_users]
  have f: "on_request (interceptors with_all) = Some add_v2
      \<and> add_v2 get_users = Inr (get_users\<lparr>url := ''/v2/users''\<rparr>)"
    by (simp add: with_all_def setInterceptors_def add_v2_def get_users_def)
  have one: "request env0 get_users with_all
      = (case request env0 (get_users\<lparr>url := ''/v2/users''\<rparr>)
                (with_all\<lparr>interceptors := (interceptors with_all)\<lparr>on_request := None\<rparr>\<rparr>) of
           (r, st', evs) \<Rightarrow>
             (r, st'\<lparr>interceptors := interceptors with_all\<rparr>, CallRequestInterceptor get_users # evs))"
    using inst [of env0] f by blast
  have a: "fst (request env0 get_users with_all)
      = Inr \<lparr>data_res = ''hello'', cacheKey = Some ''komcards-default:/v2/users'', fromCache = False\<rparr>
    \<and> snd (snd (request env0 get_users with_all))
      = [CallRequestInterceptor get_users, Send ViaFetch ''/v2/users'' json_init,
         CallResponseInterceptor]"
    unfolding one by (simp add: with_all_def run_defs2)
  have t: "request_try env404 get_users with_all
      = (Inl (ApiMeta 404 ''Not Found'' ''error''), with_all,
         [CallRequestInterceptor get_users, Send ViaFetch ''/v2/users'' json_init])"
    by (simp add: with_all_def run_defs2)
  have e: "on_error (interceptors with_all) = Some fallback"
    by (simp add: with_all_def setInterceptors_def)
  have b: "request env404 get_users with_all
      = (Inr \<lparr>data_res = ''fallback'', cacheKey = None, fromCache = False\<rparr>, with_all,
         [CallRequestInterceptor get_users, Send ViaFetch ''/v2/users'' json_init,
          CallErrorInterceptor (ApiMeta 404 ''Not Found'' ''error'')])"
    using inst [of env404] t e by (simp add: fallback_def)
  from a b show ?thesis by simp
qed

section \<open>The bound and the access order of the cache\<close>

subsection \<open>The invariant, for keys that are not the empty string\<close>

lemma dom_delete_eq: "fst ` set (AList.delete k m) = fst ` set m - {k}"
  by (induction m) auto

lemma length_delete_present:
  "k \<in> fst ` set m \<Longrightarrow> length (AList.delete k m) < length m"
proof (induction m)
  case Nil
  then show ?case by simp
next
  case (Cons x m)
  show ?case
  proof (cases "fst x = k")
    case True
    then show ?thesis using length_delete_le [of k m] by (cases x) auto
  next
    case False
    then show ?thesis using Cons by (cases x) auto
  qed
qed

lemma length_update_le: "length (AList.update k v m) \<le> Suc (length m)"
  by (induction m) auto

lemma length_update_present: "k \<in> fst ` set m \<Longrightarrow> length (AList.update k v m) = length m"
  by (induction m) auto

lemma Map_has_keys: "Map_has m k = (k \<in> fst ` set m)"
  by (simp add: Map_has_def map_of_eq_None_iff)

lemma Map_get_keys: "Map_get m k = Some en \<Longrightarrow> k \<in> fst ` set m"
  unfolding Map_get_def by (metis map_of_eq_None_iff option.distinct(1))

lemma inv_get:
  assumes "cache_inv st"
  shows "cache_inv (snd (getCacheEntry k st))"
proof (cases "Map_get (cache st) k")
  case None
  then show ?thesis using assms by (simp add: getCacheEntry_def)
next
  case (Some en)
  then have "k \<in> fst ` set (cache st)" by (rule Map_get_keys)
  then show ?thesis
    using assms Some
    by (auto simp: getCacheEntry_def cache_inv_def spliceOut_remove1)
qed

lemma inv_remove:
  assumes "cache_inv st"
  shows "cache_inv (removeCacheEntry k st)"
proof -
  have len: "length (AList.delete k (cache st)) \<le> length (cache st)"
    by (rule length_delete_le)
  show ?thesis
    using assms len
    by (auto simp: removeCacheEntry_def cache_inv_def spliceOut_remove1 Map_delete_def
        dom_delete_eq distinct_delete Map_size_def)
qed

lemma inv_clear: "0 \<le> maxCacheSize st \<Longrightarrow> cache_inv (clearCache st)"
  by (simp add: clearCache_def cache_inv_def Map_size_def)

text \<open>Eviction under the invariant: the head of the order leaves both structures.\<close>

lemma evict_full:
  assumes inv: "cache_inv st" and full: "maxCacheSize st \<le> Map_size (cache st)"
    and pos: "1 \<le> maxCacheSize st"
  shows "\<exists>oldest rest. cacheAccessOrder st = oldest # rest
      \<and> evictOldest st = st\<lparr>cacheAccessOrder := rest, cache := Map_delete oldest (cache st)\<rparr>"
proof -
  have "cache st \<noteq> []" using full pos by (auto simp: Map_size_def)
  then have "cacheAccessOrder st \<noteq> []" using inv by (auto simp: cache_inv_def)
  then obtain oldest rest where o: "cacheAccessOrder st = oldest # rest"
    by (cases "cacheAccessOrder st") auto
  then have "oldest \<noteq> []" using inv by (auto simp: cache_inv_def)
  then show ?thesis using o by (simp add: evictOldest_def)
qed

lemma inv_set:
  assumes inv: "cache_inv st" and pos: "1 \<le> maxCacheSize st" and k: "k \<noteq> []"
  shows "cache_inv (setCacheEntry k en st)"
proof (cases "maxCacheSize st \<le> Map_size (cache st) \<and> \<not> Map_has (cache st) k")
  case True
  from evict_full [OF inv _ pos] True
  obtain oldest rest where o: "cacheAccessOrder st = oldest # rest"
    "evictOldest st = st\<lparr>cacheAccessOrder := rest, cache := Map_delete oldest (cache st)\<rparr>"
    by blast
  have kn: "k \<notin> fst ` set (cache st)" using True by (simp add: Map_has_keys)
  have oin: "oldest \<in> fst ` set (cache st)" using inv o by (auto simp: cache_inv_def)
  have krest: "k \<notin> set rest" using inv o kn by (auto simp: cache_inv_def)
  have l1: "length (AList.delete oldest (cache st)) < length (cache st)"
    using oin by (rule length_delete_present)
  have l2: "length (AList.update k en (AList.delete oldest (cache st)))
      \<le> Suc (length (AList.delete oldest (cache st)))"
    by (rule length_update_le)
  have len: "int (length (AList.update k en (AList.delete oldest (cache st)))) \<le> maxCacheSize st"
    using l1 l2 inv by (simp add: cache_inv_def Map_size_def)
  have sets: "set rest = fst ` set (cache st) - {oldest}"
    using inv o by (auto simp: cache_inv_def)
  show ?thesis
    using True o inv k krest len sets
    by (auto simp: setCacheEntry_def Let_def cache_inv_def spliceOut_remove1 Map_set_def
        Map_delete_def dom_update dom_delete_eq distinct_update distinct_delete Map_size_def)
next
  case False
  then have st1: "setCacheEntry k en st
      = st\<lparr>cache := Map_set k en (cache st),
            cacheAccessOrder := spliceOut k (cacheAccessOrder st) @ [k]\<rparr>"
    by (auto simp: setCacheEntry_def Let_def)
  have len: "int (length (AList.update k en (cache st))) \<le> maxCacheSize st"
  proof (cases "k \<in> fst ` set (cache st)")
    case True
    then show ?thesis
      using inv by (simp add: length_update_present cache_inv_def Map_size_def)
  next
    case kn: False
    then have "\<not> maxCacheSize st \<le> Map_size (cache st)" using False by (simp add: Map_has_keys)
    then show ?thesis
      using length_update_le [of k en "cache st"] by (simp add: Map_size_def)
  qed
  show ?thesis
    unfolding st1
    using inv k len
    by (auto simp: cache_inv_def spliceOut_remove1 Map_set_def dom_update distinct_update
        Map_size_def)
qed

lemma max_get: "maxCacheSize (snd (getCacheEntry k st)) = maxCacheSize st"
  by (simp add: getCacheEntry_def split: option.splits)

lemma max_set: "maxCacheSize (setCacheEntry k en st) = maxCacheSize st"
  by (simp add: setCacheEntry_def evictOldest_def Let_def split: prod.splits option.splits)

lemma max_remove: "maxCacheSize (removeCacheEntry k st) = maxCacheSize st"
  by (simp add: removeCacheEntry_def)

lemma step_inv:
  assumes "cache_inv st" "1 \<le> maxCacheSize st" "nonempty_key x"
  shows "cache_inv (step x st) \<and> maxCacheSize (step x st) = maxCacheSize st"
  using assms
proof (cases x)
  case StepClear
  have "0 \<le> maxCacheSize st" using assms(2) by simp
  then show ?thesis using StepClear by (simp add: inv_clear) (simp add: clearCache_def)
qed (simp_all add: inv_get inv_set inv_remove max_get max_set max_remove)

lemma steps_inv:
  assumes "cache_inv st" "1 \<le> maxCacheSize st" "list_all nonempty_key xs"
  shows "cache_inv (steps xs st) \<and> maxCacheSize (steps xs st) = maxCacheSize st"
  using assms
proof (induction xs arbitrary: st)
  case Nil
  then show ?case by (simp add: steps_def)
next
  case (Cons x xs)
  from step_inv [of st x] Cons.prems
  have "cache_inv (step x st)" "1 \<le> maxCacheSize (step x st)"
    "maxCacheSize (step x st) = maxCacheSize st" by auto
  with Cons.IH [of "step x st"] Cons.prems show ?case by (simp add: steps_def)
qed


subsection \<open>The access order is the order of most recent access\<close>

lemma remdups_snoc: "remdups (xs @ [k]) = removeAll k (remdups xs) @ [k]"
  by (induction xs) auto

lemma filter_removeAll: "filter P (removeAll k xs) = removeAll k (filter P xs)"
  by (induction xs) auto

lemma removeAll_as_filter: "removeAll k xs = filter (\<lambda>j. j \<noteq> k) xs"
  by (induction xs) auto

lemma has_delete: "Map_has (Map_delete k m) = (\<lambda>j. Map_has m j \<and> j \<noteq> k)"
  by (rule ext) (auto simp: Map_has_keys Map_delete_def dom_delete_eq)

lemma has_set: "Map_has (Map_set k en m) = (\<lambda>j. j = k \<or> Map_has m j)"
  by (rule ext) (auto simp: Map_has_keys Map_set_def dom_update)

lemma lru_get:
  assumes inv: "cache_inv st" and l: "lru_inv log st"
  shows "lru_inv (log @ touched (StepGet k) st) (step (StepGet k) st)"
proof (cases "Map_get (cache st) k")
  case None
  then have "\<not> Map_has (cache st) k" by (simp add: Map_has_def Map_get_def)
  then show ?thesis using None l by (simp add: getCacheEntry_def lru_inv_def)
next
  case (Some en)
  then have h: "Map_has (cache st) k" by (simp add: Map_has_def Map_get_def)
  have d: "distinct (cacheAccessOrder st)" using inv by (simp add: cache_inv_def)
  show ?thesis
    using Some h l d
    by (simp add: getCacheEntry_def lru_inv_def remdups_snoc filter_removeAll
        spliceOut_remove1 distinct_remove1_removeAll)
qed

lemma lru_remove:
  assumes inv: "cache_inv st" and l: "lru_inv log st"
  shows "lru_inv log (removeCacheEntry k st)"
proof -
  have d: "distinct (cacheAccessOrder st)" using inv by (simp add: cache_inv_def)
  have "filter (Map_has (Map_delete k (cache st))) (remdups log)
      = filter (\<lambda>j. j \<noteq> k) (filter (Map_has (cache st)) (remdups log))"
    by (simp add: has_delete)
  then show ?thesis
    using l d
    by (simp add: removeCacheEntry_def lru_inv_def spliceOut_remove1 distinct_remove1_removeAll
        removeAll_as_filter)
qed

lemma lru_set:
  assumes inv: "cache_inv st" and pos: "1 \<le> maxCacheSize st" and k: "k \<noteq> []"
    and l: "lru_inv log st"
  shows "lru_inv (log @ [k]) (setCacheEntry k en st)"
proof (cases "maxCacheSize st \<le> Map_size (cache st) \<and> \<not> Map_has (cache st) k")
  case True
  from evict_full [OF inv _ pos] True
  obtain oldest rest where o: "cacheAccessOrder st = oldest # rest"
    "evictOldest st = st\<lparr>cacheAccessOrder := rest, cache := Map_delete oldest (cache st)\<rparr>"
    by blast
  have d: "distinct (oldest # rest)" using inv o by (simp add: cache_inv_def)
  have kn: "k \<notin> fst ` set (cache st)" using True by (simp add: Map_has_keys)
  have krest: "k \<notin> set rest" using inv o kn by (auto simp: cache_inv_def)
  have "filter (Map_has (Map_set k en (Map_delete oldest (cache st)))) (removeAll k (remdups log))
      = filter (\<lambda>j. j \<noteq> oldest) (removeAll k (filter (Map_has (cache st)) (remdups log)))"
    by (auto simp: has_set has_delete removeAll_as_filter intro: filter_cong)
  also have "\<dots> = filter (\<lambda>j. j \<noteq> oldest) (removeAll k (oldest # rest))"
    using l o by (simp add: lru_inv_def)
  also have "\<dots> = rest"
    using d krest kn o inv
    by (auto simp: removeAll_as_filter cache_inv_def filter_id_conv)
  finally have f: "filter (Map_has (Map_set k en (Map_delete oldest (cache st))))
      (removeAll k (remdups log)) = rest" .
  have hk: "Map_has (Map_set k en (Map_delete oldest (cache st))) k"
    by (simp add: Map_has_keys Map_set_def dom_update)
  show ?thesis
    using True o f hk krest
    by (simp add: setCacheEntry_def Let_def lru_inv_def remdups_snoc spliceOut_remove1
        remove1_idem)
next
  case False
  then have st1: "setCacheEntry k en st
      = st\<lparr>cache := Map_set k en (cache st),
            cacheAccessOrder := spliceOut k (cacheAccessOrder st) @ [k]\<rparr>"
    by (auto simp: setCacheEntry_def Let_def)
  have d: "distinct (cacheAccessOrder st)" using inv by (simp add: cache_inv_def)
  have "filter (Map_has (Map_set k en (cache st))) (removeAll k (remdups log))
      = removeAll k (filter (Map_has (cache st)) (remdups log))"
    by (auto simp: has_set removeAll_as_filter intro: filter_cong)
  moreover have hk: "Map_has (Map_set k en (cache st)) k"
    by (simp add: Map_has_keys Map_set_def dom_update)
  ultimately show ?thesis
    unfolding st1
    using l d
    by (simp add: lru_inv_def remdups_snoc spliceOut_remove1 distinct_remove1_removeAll)
qed

lemma step_lru:
  assumes "cache_inv st" "1 \<le> maxCacheSize st" "nonempty_key x" "lru_inv log st"
  shows "lru_inv (log @ touched x st) (step x st)"
proof (cases x)
  case (StepGet k)
  then show ?thesis using lru_get [OF assms(1,4)] by simp
next
  case (StepSet k en)
  then show ?thesis using lru_set [OF assms(1,2) _ assms(4), of k en] assms(3) by simp
next
  case (StepRemove k)
  then show ?thesis using lru_remove [OF assms(1,4)] by simp
next
  case StepClear
  then show ?thesis by (simp add: lru_inv_def clearCache_def Map_has_def)
qed

lemma steps_lru:
  assumes "cache_inv st" "1 \<le> maxCacheSize st" "list_all nonempty_key xs" "lru_inv log st"
  shows "lru_inv (log @ access_log xs st) (steps xs st)"
  using assms
proof (induction xs arbitrary: st log)
  case Nil
  then show ?case by (simp add: steps_def)
next
  case (Cons x xs)
  from step_inv [of st x] Cons.prems
  have a: "cache_inv (step x st)" "1 \<le> maxCacheSize (step x st)" by auto
  have b: "lru_inv (log @ touched x st) (step x st)"
    using step_lru [of st x log] Cons.prems by simp
  from Cons.IH [OF a _ b] Cons.prems show ?case by (simp add: steps_def)
qed

lemma remdups_head:
  "filter P (remdups log) = a # rest \<Longrightarrow>
   \<exists>p q. log = p @ a # q \<and> a \<notin> set q \<and> set rest \<subseteq> set q"
proof (induction log)
  case Nil
  then show ?case by simp
next
  case (Cons x xs)
  show ?case
  proof (cases "x \<in> set xs \<or> \<not> P x")
    case True
    then have "filter P (remdups xs) = a # rest" using Cons.prems by (auto split: if_splits)
    from Cons.IH [OF this] obtain p q where "xs = p @ a # q" "a \<notin> set q" "set rest \<subseteq> set q"
      by blast
    then have "x # xs = (x # p) @ a # q \<and> a \<notin> set q \<and> set rest \<subseteq> set q" by simp
    then show ?thesis by blast
  next
    case False
    then have "a = x" "rest = filter P (remdups xs)" using Cons.prems by auto
    then have "x # xs = [] @ a # xs \<and> a \<notin> set xs \<and> set rest \<subseteq> set xs"
      using False by auto
    then show ?thesis by blast
  qed
qed


subsection \<open>Public operations\<close>

lemma steps_append: "steps (xs @ ys) st = steps ys (steps xs st)"
  by (simp add: steps_def)

lemma request_network_steps:
  assumes "key \<noteq> []"
  shows "\<exists>xs. fst (snd (request_network e fc key st)) = steps xs st \<and> list_all nonempty_key xs"
proof (cases "\<exists>en. fst (snd (request_network e fc key st)) = setCacheEntry key en st")
  case True
  then obtain en where "fst (snd (request_network e fc key st)) = steps [StepSet key en] st"
    by (auto simp: steps_def)
  then show ?thesis using assms by (intro exI [of _ "[StepSet key en]"]) simp
next
  case False
  then have "fst (snd (request_network e fc key st)) = st"
    by (auto simp: request_network_def split: prod.splits sum.splits if_splits)
  then show ?thesis by (intro exI [of _ "[]"]) (simp add: steps_def)
qed

lemma buildcacheKey_nonempty: "buildcacheKey js st c \<noteq> []"
  by (simp add: buildcacheKey_def Let_def)

lemma request_try_steps:
  "\<exists>xs. fst (snd (request_try e config st)) = steps xs st \<and> list_all nonempty_key xs"
proof (cases "fst (handleInterceptors st config)")
  case (Inl err)
  then have "fst (snd (request_try e config st)) = st"
    by (simp add: request_try_def case_prod_beta)
  then show ?thesis by (intro exI [of _ "[]"]) (simp add: steps_def)
next
  case (Inr fc)
  let ?key = "buildcacheKey (JSON_stringify e) st fc"
  have ne: "?key \<noteq> []" by (rule buildcacheKey_nonempty)
  show ?thesis
  proof (cases "cacheable fc")
    case False
    then have "fst (snd (request_try e config st)) = fst (snd (request_network e fc ?key st))"
      using Inr by (simp add: request_try_def case_prod_beta Let_def)
    then show ?thesis using request_network_steps [OF ne, of e fc st] by simp
  next
    case True
    let ?s1 = "steps [StepGet ?key] st"
    show ?thesis
    proof (cases "fst (getCacheEntry ?key st)")
      case None
      then have "fst (snd (request_try e config st)) = fst (snd (request_network e fc ?key ?s1))"
        using Inr True by (simp add: request_try_def case_prod_beta Let_def steps_def)
      moreover obtain ys where "fst (snd (request_network e fc ?key ?s1)) = steps ys ?s1"
        "list_all nonempty_key ys"
        using request_network_steps [OF ne, of e fc ?s1] by blast
      ultimately have "fst (snd (request_try e config st)) = steps ([StepGet ?key] @ ys) st
          \<and> list_all nonempty_key ([StepGet ?key] @ ys)"
        by (simp add: steps_def)
      then show ?thesis by blast
    next
      case (Some cached)
      show ?thesis
      proof (cases "expired cached (now_lookup e)")
        case False
        then have "fst (snd (request_try e config st)) = steps [StepGet ?key] st"
          using Inr True Some by (simp add: request_try_def case_prod_beta Let_def steps_def)
        then show ?thesis by (intro exI [of _ "[StepGet ?key]"]) simp
      next
        case ex: True
        let ?s2 = "steps [StepGet ?key, StepRemove ?key] st"
        have "fst (snd (request_try e config st)) = fst (snd (request_network e fc ?key ?s2))"
          using Inr True Some ex by (simp add: request_try_def case_prod_beta Let_def steps_def)
        moreover obtain ys where "fst (snd (request_network e fc ?key ?s2)) = steps ys ?s2"
          "list_all nonempty_key ys"
          using request_network_steps [OF ne, of e fc ?s2] by blast
        ultimately have "fst (snd (request_try e config st))
              = steps ([StepGet ?key, StepRemove ?key] @ ys) st
            \<and> list_all nonempty_key ([StepGet ?key, StepRemove ?key] @ ys)"
          by (simp add: steps_def)
        then show ?thesis by blast
      qed
    qed
  qed
qed

lemma request_state: "fst (snd (request e config st)) = fst (snd (request_try e config st))"
  by (simp add: request_def case_prod_beta split: sum.splits)

lemma call_steps:
  assumes "nonempty_cache_key c"
  shows "\<exists>xs. call c st = steps xs st \<and> list_all nonempty_key xs"
proof (cases c)
  case (CallRequest e config)
  then show ?thesis using request_try_steps [of e config st] by (simp add: request_state)
next
  case (CallGetCache key)
  then show ?thesis
    by (intro exI [of _ "[StepGet key]"]) (simp add: steps_def getCache_def case_prod_beta)
next
  case (CallSetCache key d t now)
  then show ?thesis
    using assms
    by (intro exI [of _ "[StepSet key \<lparr>data = d, timestamp = now, ttl = t\<rparr>]"])
       (simp add: steps_def setCache_def)
next
  case (CallRemoveCache key)
  then show ?thesis by (intro exI [of _ "[StepRemove key]"]) (simp add: steps_def removeCache_def)
next
  case CallClearCache
  then show ?thesis by (intro exI [of _ "[StepClear]"]) (simp add: steps_def)
qed

lemma calls_steps:
  assumes "list_all nonempty_cache_key cs"
  shows "\<exists>xs. calls cs st = steps xs st \<and> list_all nonempty_key xs"
  using assms
proof (induction cs arbitrary: st)
  case Nil
  show ?case by (intro exI [of _ "[]"]) (simp add: calls_def steps_def)
next
  case (Cons c cs)
  obtain xs where xs: "call c st = steps xs st" "list_all nonempty_key xs"
    using call_steps [of c st] Cons.prems by auto
  obtain ys where ys: "calls cs (call c st) = steps ys (call c st)" "list_all nonempty_key ys"
    using Cons.IH [of "call c st"] Cons.prems by auto
  have "calls (c # cs) st = steps (xs @ ys) st \<and> list_all nonempty_key (xs @ ys)"
    using xs ys by (simp add: calls_def steps_append)
  then show ?case by blast
qed

lemma new_inv:
  assumes "1 \<le> maxCacheSize (new_ApiInstance options :: 'a ApiInstance)"
  shows "cache_inv (new_ApiInstance options :: 'a ApiInstance)"
  using assms by (simp add: cache_inv_def new_ApiInstance_def Map_size_def)

lemma cache_bounded_nonempty_keys:
  fixes cs :: "'a api_call list"
  assumes "1 \<le> maxCacheSize (new_ApiInstance options :: 'a ApiInstance)"
    and "list_all nonempty_cache_key cs"
  shows "Map_size (cache (calls cs (new_ApiInstance options))) \<le> maxCacheSize (new_ApiInstance options :: 'a ApiInstance)
       \<and> distinct (cacheAccessOrder (calls cs (new_ApiInstance options :: 'a ApiInstance)))
       \<and> set (cacheAccessOrder (calls cs (new_ApiInstance options :: 'a ApiInstance)))
           = fst ` set (cache (calls cs (new_ApiInstance options :: 'a ApiInstance)))"
proof -
  let ?st0 = "new_ApiInstance options :: 'a ApiInstance"
  obtain xs where xs: "calls cs ?st0 = steps xs ?st0" "list_all nonempty_key xs"
    using calls_steps [OF assms(2)] by blast
  from steps_inv [OF new_inv [OF assms(1)] assms(1) xs(2)]
  show ?thesis using xs(1) by (simp add: cache_inv_def)
qed

lemma eviction_is_lru:
  assumes empty: "cache st0 = []" "cacheAccessOrder st0 = []" and pos: "1 \<le> maxCacheSize st0"
    and ne: "list_all nonempty_key xs" and st: "st = steps xs st0"
    and k: "k \<noteq> []" "\<not> Map_has (cache st) k"
    and full: "maxCacheSize st \<le> Map_size (cache st)"
  shows "\<exists>oldest p q. access_log xs st0 = p @ oldest # q \<and> oldest \<notin> set q
           \<and> Map_has (cache st) oldest
           \<and> (\<forall>j. Map_has (cache st) j \<and> j \<noteq> oldest \<longrightarrow> j \<in> set q)
           \<and> fst ` set (cache (setCacheEntry k en st))
               = insert k (fst ` set (cache st) - {oldest})"
proof -
  have inv0: "cache_inv st0" using empty pos by (simp add: cache_inv_def Map_size_def)
  have l0: "lru_inv [] st0" using empty by (simp add: lru_inv_def)
  have inv: "cache_inv st" "maxCacheSize st = maxCacheSize st0"
    using steps_inv [OF inv0 pos ne] st by auto
  have l: "lru_inv (access_log xs st0) st"
    using steps_lru [OF inv0 pos ne l0] st by simp
  have pos': "1 \<le> maxCacheSize st" using inv(2) pos by simp
  from evict_full [OF inv(1) full pos']
  obtain oldest rest where o: "cacheAccessOrder st = oldest # rest"
    "evictOldest st = st\<lparr>cacheAccessOrder := rest, cache := Map_delete oldest (cache st)\<rparr>"
    by blast
  have "filter (Map_has (cache st)) (remdups (access_log xs st0)) = oldest # rest"
    using l o by (simp add: lru_inv_def)
  from remdups_head [OF this]
  obtain p q where pq: "access_log xs st0 = p @ oldest # q" "oldest \<notin> set q" "set rest \<subseteq> set q"
    by blast
  have keys: "fst ` set (cache st) = set (oldest # rest)"
    using inv(1) o by (simp add: cache_inv_def)
  have a: "Map_has (cache st) oldest" using keys by (simp add: Map_has_keys)
  have b: "\<forall>j. Map_has (cache st) j \<and> j \<noteq> oldest \<longrightarrow> j \<in> set q"
    using keys pq(3) by (auto simp: Map_has_keys)
  have c: "fst ` set (cache (setCacheEntry k en st)) = insert k (fst ` set (cache st) - {oldest})"
    using k(2) full o
    by (simp add: setCacheEntry_def Let_def Map_set_def Map_delete_def dom_update dom_delete_eq)
  from pq(1,2) a b c show ?thesis by blast
qed

subsection \<open>The empty key\<close>

text \<open>
  C2 (the code departs from it): on an instance constructed with \<open>maxCacheSize = 1\<close>,
  after \<open>setCache("", "a")\<close> and \<open>setCache("k", "b")\<close> the cache holds two entries, and
  the access order lists only \<open>k\<close>.  The second call finds the cache full, shifts the
  empty key off the access order, and then skips the deletion because \<open>if (oldestKey)\<close>
  is false for the empty string.  For keys other than the empty string the bound and the
  agreement of the two structures hold (\<open>cache_bounded_nonempty_keys\<close>).
\<close>

theorem C2_empty_key_overflow:
  "maxCacheSize tiny = 1
   \<and> map fst (cache (calls [CallSetCache [] ''a'' None 0, CallSetCache ''k'' ''b'' None 1] tiny))
       = [[], ''k'']
   \<and> Map_size (cache (calls [CallSetCache [] ''a'' None 0, CallSetCache ''k'' ''b'' None 1] tiny)) = 2
   \<and> cacheAccessOrder (calls [CallSetCache [] ''a'' None 0, CallSetCache ''k'' ''b'' None 1] tiny)
       = [''k'']"
  by (simp add: calls_def tiny_def run_defs)

text \<open>
  C3 (the code departs from it): the cache of \<open>tiny_with_empty_key\<close> is at capacity and
  does not hold \<open>k\<close>; inserting \<open>k\<close> evicts nothing, although the empty key is the least
  recently used one.  For keys other than the empty string exactly the head of the access
  order is evicted, and every other key of the cache has been accessed after the last
  access to it (\<open>eviction_is_lru\<close>).
\<close>

theorem C3_empty_key_not_evicted:
  "maxCacheSize tiny_with_empty_key \<le> Map_size (cache tiny_with_empty_key)
   \<and> \<not> Map_has (cache tiny_with_empty_key) ''k''
   \<and> cacheAccessOrder tiny_with_empty_key = [[]]
   \<and> cache (setCacheEntry ''k'' \<lparr>data = ''b'', timestamp = 1, ttl = None\<rparr> tiny_with_empty_key)
       = cache tiny_with_empty_key @ [(''k'', \<lparr>data = ''b'', timestamp = 1, ttl = None\<rparr>)]"
  by (simp add: tiny_with_empty_key_def tiny_def run_defs)

section \<open>Deduplication of mutations\<close>

lemma forget_absent: "\<not> Map_has (pendingRequests (forget k w)) k"
  by (simp add: forget_def Map_has_def Map_delete_def delete_conv')

lemma forget_started: "started (forget k w) = started w"
  by (simp add: forget_def)

lemma renew_keeps:
  "pendingRequests (snd (renew_controller h w)) = pendingRequests w
   \<and> started (snd (renew_controller h w)) = started w"
  by (simp add: renew_controller_def Let_def split: option.splits)

text \<open>
  C5: for a call of \<open>mutate\<close> whose serialized key is \<open>requestKey\<close>.  When the key is
  not in \<open>pendingRequests\<close>, the call starts a request and puts its promise into the map
  under the key.  When the key is in the map with promise \<open>p\<close>, the call returns \<open>p\<close>
  (so it settles as the first caller's request does) and starts no request.  The call
  that awaited the request settles with the outcome of the request, success or error,
  and after it the key is not in \<open>pendingRequests\<close>.
\<close>

theorem C5_dedup:
  assumes key: "stringify u (mutation_method config) req = Inr requestKey"
  shows "(Map_get (pendingRequests w) requestKey = None \<longrightarrow>
            fst (mutate_start stringify enc u config req h w)
              = Awaiting requestKey (length (started w))
            \<and> Map_get (pendingRequests (snd (snd (mutate_start stringify enc u config req h w))))
                requestKey = Some (length (started w))
            \<and> length (started (snd (snd (mutate_start stringify enc u config req h w))))
              = Suc (length (started w)))
       \<and> (\<forall>p. Map_get (pendingRequests w) requestKey = Some p \<longrightarrow>
            fst (mutate_start stringify enc u config req h w) = Joined p
            \<and> started (snd (snd (mutate_start stringify enc u config req h w))) = started w)
       \<and> fst (mutate_settle requestKey r h' w') = r
       \<and> \<not> Map_has (pendingRequests (snd (snd (mutate_settle requestKey r h' w')))) requestKey"
proof -
  obtain h1 w1 where rc: "renew_controller h w = (h1, w1)"
    by (cases "renew_controller h w") auto
  have w1: "pendingRequests w1 = pendingRequests w" "started w1 = started w"
    using renew_keeps [of h w] rc by simp_all
  have a: "fst (mutate_start stringify enc u config req h w)
        = Awaiting requestKey (length (started w))
      \<and> Map_get (pendingRequests (snd (snd (mutate_start stringify enc u config req h w))))
          requestKey = Some (length (started w))
      \<and> length (started (snd (snd (mutate_start stringify enc u config req h w))))
        = Suc (length (started w))"
    if "Map_get (pendingRequests w) requestKey = None"
    using that key rc w1 by (simp add: mutate_start_def Let_def Map_get_set)
  have b: "fst (mutate_start stringify enc u config req h w) = Joined p
      \<and> started (snd (snd (mutate_start stringify enc u config req h w))) = started w"
    if "Map_get (pendingRequests w) requestKey = Some p" for p
    using that key rc w1 by (simp add: mutate_start_def Let_def forget_started)
  have c: "fst (mutate_settle requestKey r h' w') = r
      \<and> \<not> Map_has (pendingRequests (snd (snd (mutate_settle requestKey r h' w')))) requestKey"
    by (cases r) (simp_all add: mutate_settle_def forget_absent)
  from a b c show ?thesis by blast
qed

lemmas mutate_defs = mutate_start_def mutate_settle_def renew_controller_def forget_def
  mutation_method_def mutation_config_def url_as_key_def post_options_def idle_hook_def
  no_requests_def Map_get_def Map_has_def Map_set_def Map_delete_def Let_def

lemma after_first_eq:
  "pendingRequests after_first = [(''/users'', 0)] \<and> length (started after_first) = 1"
  by (simp add: after_first_def mutate_defs)

theorem C5_dedup_witness:
  "fst (mutate_start url_as_key enc0 ''/users'' post_options None idle_hook no_requests)
     = Awaiting ''/users'' 0
   \<and> fst (mutate_start url_as_key enc0 ''/users'' post_options None idle_hook after_first)
     = Joined 0
   \<and> length (started after_second) = 1
   \<and> \<not> Map_has (pendingRequests (snd (snd (mutate_settle ''/users''
          (Inl (JsError ''TypeError'' ''Failed to fetch'') :: thrown + string TApiResponse)
          idle_hook after_first)))) ''/users''"
proof -
  have key: "url_as_key ''/users'' (mutation_method post_options) None = Inr ''/users''"
    by (simp add: url_as_key_def)
  have none: "Map_get (pendingRequests no_requests) ''/users'' = None"
    by (simp add: no_requests_def Map_get_def)
  have some: "Map_get (pendingRequests after_first) ''/users'' = Some 0"
    using after_first_eq by (simp add: Map_get_def)
  note first = C5_dedup [where stringify = url_as_key and u = "''/users''"
      and config = post_options and req = None and requestKey = "''/users''"
      and w = no_requests and enc = enc0 and h = idle_hook
      and w' = after_first and h' = idle_hook
      and r = "Inl (JsError ''TypeError'' ''Failed to fetch'') :: thrown + string TApiResponse",
      OF key]
  note second = C5_dedup [where stringify = url_as_key and u = "''/users''"
      and config = post_options and req = None and requestKey = "''/users''"
      and w = after_first and enc = enc0 and h = idle_hook
      and w' = after_first and h' = idle_hook
      and r = "Inl (JsError ''TypeError'' ''Failed to fetch'') :: thrown + string TApiResponse",
      OF key]
  have a: "fst (mutate_start url_as_key enc0 ''/users'' post_options None idle_hook no_requests)
      = Awaiting ''/users'' 0"
    using first none by (simp add: no_requests_def)
  have b: "fst (mutate_start url_as_key enc0 ''/users'' post_options None idle_hook after_first)
        = Joined 0
      \<and> started after_second = started after_first"
    using second some by (simp add: after_second_def)
  have c: "\<not> Map_has (pendingRequests (snd (snd (mutate_settle ''/users''
          (Inl (JsError ''TypeError'' ''Failed to fetch'') :: thrown + string TApiResponse)
          idle_hook after_first)))) ''/users''"
    using first by blast
  from a b c after_first_eq show ?thesis by simp
qed

text \<open>
  Beyond the claim, which speaks of a second call: the \<open>finally\<close> block also runs for the
  call that was answered from the map, so that call removes the key while the first
  request is still pending, and a third call with the same key starts a new request.
\<close>

lemma joined_call_forgets_key:
  assumes "stringify u (mutation_method config) req = Inr requestKey"
    and "Map_get (pendingRequests w) requestKey = Some p"
  shows "\<not> Map_has (pendingRequests (snd (snd (mutate_start stringify enc u config req h w))))
           requestKey"
proof -
  obtain h1 w1 where rc: "renew_controller h w = (h1, w1)"
    by (cases "renew_controller h w") auto
  have "pendingRequests w1 = pendingRequests w" using renew_keeps [of h w] rc by simp
  then show ?thesis
    using assms rc by (simp add: mutate_start_def Let_def forget_absent)
qed


lemma third_call_starts_again:
  "fst (mutate_start url_as_key enc0 ''/users'' post_options None idle_hook after_second)
     = Awaiting ''/users'' 1
   \<and> pendingRequests after_second = []"
proof -
  have "pendingRequests after_second = [] \<and> length (started after_second) = 1"
    using after_first_eq
    by (simp add: after_second_def mutate_start_def renew_controller_def forget_def
        mutation_method_def url_as_key_def post_options_def idle_hook_def
        Map_get_def Map_has_def Map_delete_def Let_def)
  then show ?thesis
    by (simp add: mutate_start_def renew_controller_def mutation_method_def url_as_key_def
        post_options_def idle_hook_def Map_get_def Let_def)
qed

section \<open>Infinite fetch\<close>

lemmas hook_defs = mount_def fetchNextPage_def fetchPage_def rerender_def first_render_def
  fetchPage_deps_def users_pages_def page_def by_ten_def Let_def

lemma fetchNextPage_appends:
  assumes "hasNextPage (state hk)" "\<not> isFetchingNextPage (state hk)"
  shows "items (state (fetchNextPage props (Inr response) hk))
       = items (state hk) @ [data_res response]
     \<and> offsets_fetched (fetchNextPage props (Inr response) hk)
       = offsets_fetched hk @ [offset (state hk)]"
  using assms
  by (auto simp: fetchNextPage_def fetchPage_def rerender_def Let_def
      split: sum.splits option.splits)

lemma setOffset_decides:
  assumes "hasNextPage (state hk)" "\<not> isFetchingNextPage (state hk)"
    and "memo_deps hk = fetchPage_deps props"
    and "memo_setOffset hk (data_res response) (memo_items hk @ [data_res response])
           (offset (state hk)) = Inr r"
  shows "hasNextPage (state (fetchNextPage props (Inr response) hk)) = (r \<noteq> None)
     \<and> offset (state (fetchNextPage props (Inr response) hk))
         = (case r of Some n \<Rightarrow> n | None \<Rightarrow> offset (state hk))"
  using assms
  by (auto simp: fetchNextPage_def fetchPage_def rerender_def Let_def
      split: sum.splits option.splits)

lemma no_next_page:
  assumes "\<not> hasNextPage (state hk)"
  shows "state (fetchNextPage props outcome hk) = state hk
     \<and> offsets_fetched (fetchNextPage props outcome hk) = offsets_fetched hk
     \<and> \<not> hasNextPage (state (fetchNextPage props outcome hk))"
  using assms by (simp add: fetchNextPage_def rerender_def Let_def)

text \<open>
  C7 (the code departs from it).  The first two lemmas above confirm that a successful
  \<open>fetchNextPage\<close> appends the new page and that the callback's result decides the next
  offset and \<open>hasNextPage\<close>, the third that nothing is fetched or changed once
  \<open>hasNextPage\<close> is false.  But the second argument of the callback is not the
  accumulated pages: after the first page \<open>A\<close> and a second page \<open>B\<close>, with unchanged
  props, the data is \<open>[A, B]\<close> while \<open>setOffset\<close> was called with \<open>(B, [B], 10)\<close>.  The
  memoized \<open>fetchPage\<close> still holds the empty \<open>items\<close> of the first render, because
  \<open>items\<close> is not among its dependencies.
\<close>

theorem C7_stale_items:
  "items (state (fetchNextPage users_pages (page ''B'') (mount users_pages (page ''A''))))
     = [''A'', ''B'']
   \<and> setOffset_calls (fetchNextPage users_pages (page ''B'') (mount users_pages (page ''A'')))
     = [(''A'', [''A''], 0), (''B'', [''B''], 10)]"
  by (simp add: hook_defs)

theorem C7_stale_items_witness:
  "snd (last (setOffset_calls
      (fetchNextPage users_pages (page ''B'') (mount users_pages (page ''A'')))))
     = ([''B''], 10)"
  using C7_stale_items by simp

end
